theory Spec2Isabelle
  imports Main "HOL-Library.Sublist"
begin

section \<open>Shared data model\<close>

text \<open>
  The embedding covers two files of the server: the Kea statistics puller
  (\<^verbatim>\<open>backend/server/apps/kea/statspuller.go\<close>) and the event center
  (package \<^verbatim>\<open>eventcenter\<close>).  Go strings are byte sequences and are modelled as
  \<^typ>\<open>string\<close>; \<^verbatim>\<open>int\<close> and \<^verbatim>\<open>int64\<close> values are only copied, compared and
  printed (the one counter, \<^verbatim>\<open>appsOkCnt\<close>, is bounded by the length of a slice), so
  they are modelled as \<^typ>\<open>int\<close>.
\<close>

text \<open>A Go \<^verbatim>\<open>error\<close> value; only its identity matters to the code.\<close>

datatype error = Error string

text \<open>Run-time panics that the modelled code can raise.\<close>

datatype panic =
    IndexOutOfRange nat nat   \<comment> \<open>index, length\<close>
  | TypeAssertionFailed

subsection \<open>Formatting\<close>

text \<open>The verb \<^verbatim>\<open>%d\<close> of \<^verbatim>\<open>fmt.Sprintf\<close>: decimal digits, with a minus sign.\<close>

fun digit_char :: "nat \<Rightarrow> char" where
  "digit_char n = char_of (48 + n mod 10)"

function digits :: "nat \<Rightarrow> string" where
  "digits n = (if n < 10 then [digit_char n] else digits (n div 10) @ [digit_char n])"
  by pat_completeness auto
termination
  by (relation "measure (\<lambda>n. n)") auto

declare digits.simps [simp del]

definition fmt_d :: "int \<Rightarrow> string" where
  "fmt_d i = (if i < 0 then CHR ''-'' # digits (nat (- i)) else digits (nat i))"

text \<open>\<^verbatim>\<open>storkutil.HostWithPortURL\<close>: \<^verbatim>\<open>fmt.Sprintf("http://%s:%d/", address, port)\<close>.\<close>

definition HostWithPortURL :: "string \<Rightarrow> int \<Rightarrow> string" where
  "HostWithPortURL address port = ''http://'' @ address @ '':'' @ fmt_d port @ ''/''"

subsection \<open>Database model types\<close>

text \<open>
  The declarations of package \<^verbatim>\<open>dbmodel\<close> are outside the modelled files; the records
  below carry the fields that the modelled code reads or writes.  Pointers to structs
  (\<^verbatim>\<open>dbApp.Machine\<close>, \<^verbatim>\<open>daemon.App\<close>) are taken to be non-nil.
\<close>

record Machine =
  Machine_ID :: int
  Machine_Address :: string
  Machine_AgentPort :: int
  Machine_State_Hostname :: string

record KeaDaemon =
  KeaDaemon_Name :: string

text \<open>
  \<^verbatim>\<open>App.Details\<close> is an interface value; the puller asserts it to be
  \<^verbatim>\<open>dbmodel.AppKea\<close>.
\<close>

datatype AppDetails =
    AppKea "KeaDaemon list"   \<comment> \<open>the field \<^verbatim>\<open>Daemons\<close>\<close>
  | AppOther

record App =
  App_ID :: int
  App_Type :: string
  App_Meta_Version :: string
  App_CtrlAddress :: string
  App_CtrlPort :: int
  App_Machine :: Machine
  App_Details :: AppDetails

record Daemon =
  Daemon_ID :: int
  Daemon_Name :: string
  Daemon_AppID :: int
  Daemon_App :: App

record Subnet =
  Subnet_ID :: int
  Subnet_Prefix :: string

record Relations =
  Rel_Daemon :: int
  Rel_App :: int
  Rel_Machine :: int
  Rel_Subnet :: int

record Event =
  Event_ID :: int
  Event_CreatedAt :: int
  Event_Text :: string
  Event_Level :: int
  Event_Relations :: Relations

subsection \<open>Agent communication types\<close>

text \<open>\<^verbatim>\<open>agentcomm.KeaDaemons\<close> is a \<^verbatim>\<open>map[string]bool\<close>.\<close>

type_synonym KeaDaemons = "string \<rightharpoonup> bool"

text \<open>Indexing a Go map of booleans yields \<^verbatim>\<open>false\<close> for a missing key.\<close>

definition daemons_get :: "KeaDaemons \<Rightarrow> string \<Rightarrow> bool" where
  "daemons_get m k = (case m k of None \<Rightarrow> False | Some b \<Rightarrow> b)"

record KeaCommand =
  Command :: string
  Daemons :: KeaDaemons

record ResultSetInStatLeaseGet =
  Columns :: "string list"
  Rows :: "int list list"

record StatLeaseGetArgs =
  ResultSet :: ResultSetInStatLeaseGet
  Timestamp :: string

text \<open>
  \<^verbatim>\<open>StatLease4GetResponse\<close> and \<^verbatim>\<open>StatLease6GetResponse\<close> have the same shape: the
  response header and an optional \<^verbatim>\<open>Arguments\<close> pointer.
\<close>

record StatLeaseGetResponse =
  Header_Result :: int
  Header_Text :: string
  Header_Daemon :: string
  Arguments :: "StatLeaseGetArgs option"

type_synonym StatLease4GetResponse = StatLeaseGetResponse
type_synonym StatLease6GetResponse = StatLeaseGetResponse

text \<open>One call of \<^verbatim>\<open>Agents.ForwardToKeaOverHTTP\<close>: its arguments.\<close>

record ForwardCall =
  fwd_address :: string
  fwd_agentPort :: int
  fwd_caURL :: string
  fwd_cmds :: "KeaCommand list"

text \<open>
  What the call hands back: the transport error \<^verbatim>\<open>err\<close>, or the result's
  \<^verbatim>\<open>Error\<close> field together with the two decoded response slices.
\<close>

type_synonym ForwardResult =
  "error + (error option \<times> StatLease4GetResponse list \<times> StatLease6GetResponse list)"

text \<open>
  The transport collaborator is an interface whose implementation is outside the
  modelled files.  It is a parameter of the model: a function of the calls made so far
  and of the current call, so that its answers may change from call to call.
\<close>

type_synonym ConnectedAgents = "ForwardCall list \<Rightarrow> ForwardCall \<Rightarrow> ForwardResult"

subsection \<open>The observable world\<close>

text \<open>Log statements, with the values they print instead of the rendered text.\<close>

datatype log_entry =
    LogAppError App error            \<comment> \<open>\<^verbatim>\<open>gatherLeaseStats\<close>: error occurred while getting stats\<close>
  | LogApp App
  | LogStats4Resp "StatLease4GetResponse list"
  | LogStats6Resp "StatLease6GetResponse list"
  | LogRow nat
  | LogCell string int
  | LogAddEventProblem error         \<comment> \<open>\<^verbatim>\<open>mainLoop\<close>: problem with adding event to db\<close>

text \<open>Calls into the storage collaborator (functions of \<^verbatim>\<open>dbmodel\<close> taking the database).\<close>

datatype db_call =
    GetAppsByType
  | AddEvent Event

text \<open>
  Everything the modelled code does beyond returning: the transport calls it made, the
  lines it logged, the storage calls it made and the events it handed to the SSE broker,
  each oldest first.
\<close>

record world =
  sent :: "ForwardCall list"
  logs :: "log_entry list"
  db_calls :: "db_call list"
  dispatched :: "Event list"

definition log_add :: "log_entry \<Rightarrow> world \<Rightarrow> world" where
  "log_add l w = w\<lparr>logs := logs w @ [l]\<rparr>"

section \<open>The statistics puller\<close>

subsection \<open>Collecting the DHCP daemons of an application\<close>

text \<open>
  The first loop of \<^verbatim>\<open>getLeaseStatsFromApp\<close>: every daemon named \<^verbatim>\<open>dhcp4\<close> or
  \<^verbatim>\<open>dhcp6\<close> is entered in the map and sets \<^verbatim>\<open>found\<close>.
\<close>

fun collect_dhcp :: "KeaDaemon list \<Rightarrow> KeaDaemons \<times> bool \<Rightarrow> KeaDaemons \<times> bool" where
  "collect_dhcp [] acc = acc"
| "collect_dhcp (d # ds) (dhcpDaemons, found) =
     (if KeaDaemon_Name d = ''dhcp4'' \<or> KeaDaemon_Name d = ''dhcp6''
      then collect_dhcp ds (dhcpDaemons(KeaDaemon_Name d \<mapsto> True), True)
      else collect_dhcp ds (dhcpDaemons, found))"

subsection \<open>Processing the responses\<close>

text \<open>
  The innermost loop, \<^verbatim>\<open>for colIdx, col := range row\<close>: it prints
  \<^verbatim>\<open>Columns[colIdx]\<close> and the value; indexing the columns out of range panics.
\<close>

fun log_cells :: "string list \<Rightarrow> nat \<Rightarrow> int list \<Rightarrow> world \<Rightarrow> panic option \<times> world" where
  "log_cells cols colIdx [] w = (None, w)"
| "log_cells cols colIdx (col # row) w =
     (if colIdx < length cols
      then log_cells cols (Suc colIdx) row (log_add (LogCell (cols ! colIdx) col) w)
      else (Some (IndexOutOfRange colIdx (length cols)), w))"

text \<open>The loop over the rows of one result set: \<^verbatim>\<open>for idx, row := range ...Rows\<close>.\<close>

fun log_rows :: "string list \<Rightarrow> nat \<Rightarrow> int list list \<Rightarrow> world \<Rightarrow> panic option \<times> world" where
  "log_rows cols idx [] w = (None, w)"
| "log_rows cols idx (row # rows) w =
     (case log_cells cols 0 row (log_add (LogRow idx) w) of
        (Some p, w') \<Rightarrow> (Some p, w')
      | (None, w') \<Rightarrow> log_rows cols (Suc idx) rows w')"

text \<open>
  The loop over the responses of one family; a response without arguments is passed
  over (\<^verbatim>\<open>continue\<close>).
\<close>

fun log_resps :: "StatLeaseGetResponse list \<Rightarrow> world \<Rightarrow> panic option \<times> world" where
  "log_resps [] w = (None, w)"
| "log_resps (r # rs) w =
     (case Arguments r of
        None \<Rightarrow> log_resps rs w
      | Some args \<Rightarrow>
          (case log_rows (Columns (ResultSet args)) 0 (Rows (ResultSet args)) w of
             (Some p, w') \<Rightarrow> (Some p, w')
           | (None, w') \<Rightarrow> log_resps rs w'))"

subsection \<open>One application\<close>

text \<open>
  The command batch of \<^verbatim>\<open>getLeaseStatsFromApp\<close> (the two \<^verbatim>\<open>if\<close> statements that
  append to \<^verbatim>\<open>cmds\<close>).  Both are guarded by \<^verbatim>\<open>dhcpDaemons["dhcp4"]\<close>, as in the
  source.
\<close>

definition stat_cmds :: "KeaDaemons \<Rightarrow> KeaCommand list" where
  "stat_cmds dhcpDaemons =
     (let cmds = [];
          cmds = (if daemons_get dhcpDaemons ''dhcp4''
                  then cmds @ [\<lparr>Command = ''stat-lease4-get'', Daemons = dhcpDaemons\<rparr>]
                  else cmds);
          cmds = (if daemons_get dhcpDaemons ''dhcp4''
                  then cmds @ [\<lparr>Command = ''stat-lease6-get'', Daemons = dhcpDaemons\<rparr>]
                  else cmds)
      in cmds)"

text \<open>The arguments of the call to \<^verbatim>\<open>ForwardToKeaOverHTTP\<close>.\<close>

definition forward_call :: "App \<Rightarrow> KeaDaemons \<Rightarrow> ForwardCall" where
  "forward_call dbApp dhcpDaemons =
     \<lparr>fwd_address = Machine_Address (App_Machine dbApp),
      fwd_agentPort = Machine_AgentPort (App_Machine dbApp),
      fwd_caURL = HostWithPortURL (App_CtrlAddress dbApp) (App_CtrlPort dbApp),
      fwd_cmds = stat_cmds dhcpDaemons\<rparr>"

text \<open>
  \<^verbatim>\<open>getLeaseStatsFromApp\<close>.  The result is a panic or the returned \<^verbatim>\<open>error\<close>
  (\<open>None\<close> for \<^verbatim>\<open>nil\<close>).  The type assertion on \<^verbatim>\<open>dbApp.Details\<close> panics for
  any other kind of details.
\<close>

definition getLeaseStatsFromApp ::
  "ConnectedAgents \<Rightarrow> App \<Rightarrow> world \<Rightarrow> (panic + error option) \<times> world" where
  "getLeaseStatsFromApp agents dbApp w =
     (case App_Details dbApp of
        AppOther \<Rightarrow> (Inl TypeAssertionFailed, w)
      | AppKea daemons \<Rightarrow>
          (let (dhcpDaemons, found) = collect_dhcp daemons (Map.empty, False) in
           if \<not> found then (Inr None, w)
           else
             let call = forward_call dbApp dhcpDaemons;
                 w1 = w\<lparr>sent := sent w @ [call]\<rparr>
             in case agents (sent w) call of
                  Inl err \<Rightarrow> (Inr (Some err), w1)
                | Inr (cmdsResultError, stats4Resp, stats6Resp) \<Rightarrow>
                    (case cmdsResultError of
                       Some err \<Rightarrow> (Inr (Some err), w1)
                     | None \<Rightarrow>
                         (case log_resps stats4Resp
                                 (log_add (LogStats4Resp stats4Resp) (log_add (LogApp dbApp) w1)) of
                            (Some p, w2) \<Rightarrow> (Inl p, w2)
                          | (None, w2) \<Rightarrow>
                              (case log_resps stats6Resp (log_add (LogStats6Resp stats6Resp) w2) of
                                 (Some p, w3) \<Rightarrow> (Inl p, w3)
                               | (None, w3) \<Rightarrow> (Inr None, w3))))))"

subsection \<open>One collection cycle\<close>

text \<open>
  The loop of \<^verbatim>\<open>gatherLeaseStats\<close> over the applications, with its two local
  variables \<^verbatim>\<open>lastErr\<close> and \<^verbatim>\<open>appsOkCnt\<close>.  A panic in one application ends the loop.
\<close>

fun gather_loop ::
  "ConnectedAgents \<Rightarrow> App list \<Rightarrow> error option \<Rightarrow> int \<Rightarrow> world
    \<Rightarrow> (panic + int \<times> error option) \<times> world" where
  "gather_loop agents [] lastErr appsOkCnt w = (Inr (appsOkCnt, lastErr), w)"
| "gather_loop agents (dbApp # dbApps) lastErr appsOkCnt w =
     (case getLeaseStatsFromApp agents dbApp w of
        (Inl p, w') \<Rightarrow> (Inl p, w')
      | (Inr (Some err), w') \<Rightarrow>
          gather_loop agents dbApps (Some err) appsOkCnt (log_add (LogAppError dbApp err) w')
      | (Inr None, w') \<Rightarrow> gather_loop agents dbApps lastErr (appsOkCnt + 1) w')"

text \<open>
  \<^verbatim>\<open>gatherLeaseStats\<close>.  The first argument is what
  \<^verbatim>\<open>dbmodel.GetAppsByType(statsPuller.Db, dbmodel.KeaAppType)\<close> answers.
\<close>

definition after_fetch :: "world \<Rightarrow> world" where
  "after_fetch w = w\<lparr>db_calls := db_calls w @ [GetAppsByType]\<rparr>"

definition gatherLeaseStats ::
  "error + App list \<Rightarrow> ConnectedAgents \<Rightarrow> world \<Rightarrow> (panic + int \<times> error option) \<times> world" where
  "gatherLeaseStats db agents w =
     (case db of
        Inl err \<Rightarrow> (Inr (0, Some err), after_fetch w)
      | Inr dbApps \<Rightarrow> gather_loop agents dbApps None 0 (after_fetch w))"

section \<open>The event center\<close>

subsection \<open>Tag enrichment\<close>

text \<open>
  \<^verbatim>\<open>strings.Replace(s, old, new, -1)\<close> of the Go library: every non-overlapping
  instance of \<open>old\<close> is replaced, scanning from the left.  The modelled code calls it
  with the four non-empty placeholders only; for an empty \<open>old\<close> (where Go inserts
  \<open>new\<close> around every rune) the model returns \<open>s\<close> and is not meant to be used.
\<close>

function Replace :: "string \<Rightarrow> string \<Rightarrow> string \<Rightarrow> string" where
  "Replace s old new =
     (if old = [] \<or> s = [] then s
      else if prefix old s then new @ Replace (drop (length old) s) old new
      else hd s # Replace (tl s) old new)"
  by pat_completeness auto
termination
  by (relation "measure (\<lambda>(s, old, new). length s)") auto

declare Replace.simps [simp del]

text \<open>The double quote that the tags contain.\<close>

definition dq :: string where
  "dq = [CHR 0x22]"

text \<open>\<^verbatim>\<open>daemonTag\<close>, \<^verbatim>\<open>appTag\<close>, \<^verbatim>\<open>machineTag\<close> and \<^verbatim>\<open>subnetTag\<close>.\<close>

definition daemonTag :: "Daemon \<Rightarrow> string" where
  "daemonTag daemon =
     ''<daemon id='' @ dq @ fmt_d (Daemon_ID daemon) @ dq @
     '' name='' @ dq @ Daemon_Name daemon @ dq @
     '' appId='' @ dq @ fmt_d (Daemon_AppID daemon) @ dq @
     '' appType='' @ dq @ App_Type (Daemon_App daemon) @ dq @ ''>''"

definition appTag :: "App \<Rightarrow> string" where
  "appTag app =
     ''<app id='' @ dq @ fmt_d (App_ID app) @ dq @
     '' type='' @ dq @ App_Type app @ dq @
     '' version='' @ dq @ App_Meta_Version app @ dq @ ''>''"

definition machineTag :: "Machine \<Rightarrow> string" where
  "machineTag machine =
     ''<machine id='' @ dq @ fmt_d (Machine_ID machine) @ dq @
     '' address='' @ dq @ Machine_Address machine @ dq @
     '' hostname='' @ dq @ Machine_State_Hostname machine @ dq @ ''>''"

definition subnetTag :: "Subnet \<Rightarrow> string" where
  "subnetTag subnet =
     ''<subnet id='' @ dq @ fmt_d (Subnet_ID subnet) @ dq @
     '' prefix='' @ dq @ Subnet_Prefix subnet @ dq @ ''>''"

text \<open>
  A related object is an \<^verbatim>\<open>interface{}\<close>; \<^verbatim>\<open>CreateEvent\<close> tells four pointer types
  apart and passes over anything else.
\<close>

datatype object =
    ObjDaemon Daemon
  | ObjApp App
  | ObjMachine Machine
  | ObjSubnet Subnet
  | ObjOther

text \<open>The body of the loop over the objects in \<^verbatim>\<open>CreateEvent\<close>.\<close>

fun tag_object :: "object \<Rightarrow> string \<times> Relations \<Rightarrow> string \<times> Relations" where
  "tag_object (ObjDaemon d) (text, relations) =
     (Replace text ''{daemon}'' (daemonTag d), relations\<lparr>Rel_Daemon := Daemon_ID d\<rparr>)"
| "tag_object (ObjApp app) (text, relations) =
     (Replace text ''{app}'' (appTag app), relations\<lparr>Rel_App := App_ID app\<rparr>)"
| "tag_object (ObjMachine m) (text, relations) =
     (Replace text ''{machine}'' (machineTag m), relations\<lparr>Rel_Machine := Machine_ID m\<rparr>)"
| "tag_object (ObjSubnet s) (text, relations) =
     (Replace text ''{subnet}'' (subnetTag s), relations\<lparr>Rel_Subnet := Subnet_ID s\<rparr>)"
| "tag_object ObjOther (text, relations) = (text, relations)"

fun tag_objects :: "object list \<Rightarrow> string \<times> Relations \<Rightarrow> string \<times> Relations" where
  "tag_objects [] acc = acc"
| "tag_objects (obj # objects) acc = tag_objects objects (tag_object obj acc)"

text \<open>
  \<^verbatim>\<open>CreateEvent\<close>.  The identifier and the creation time keep their zero values; the
  database assigns them.
\<close>

definition CreateEvent :: "int \<Rightarrow> string \<Rightarrow> object list \<Rightarrow> Event" where
  "CreateEvent level text objects =
     (let (text, relations) =
            tag_objects objects
              (text, \<lparr>Rel_Daemon = 0, Rel_App = 0, Rel_Machine = 0, Rel_Subnet = 0\<rparr>)
      in \<lparr>Event_ID = 0, Event_CreatedAt = 0, Event_Text = text, Event_Level = level,
          Event_Relations = relations\<rparr>)"

subsection \<open>The writer task\<close>




section \<open>Notions used in the statements\<close>

subsection \<open>Targets and their daemons\<close>

text \<open>The names of the daemons that the database lists for a target.\<close>

definition daemon_names :: "App \<Rightarrow> string list" where
  "daemon_names dbApp =
     (case App_Details dbApp of AppKea daemons \<Rightarrow> map KeaDaemon_Name daemons | AppOther \<Rightarrow> [])"

definition is_kea :: "App \<Rightarrow> bool" where
  "is_kea dbApp = (case App_Details dbApp of AppKea daemons \<Rightarrow> True | AppOther \<Rightarrow> False)"

text \<open>A daemon of that name is listed for the target.\<close>

definition active :: "App \<Rightarrow> string \<Rightarrow> bool" where
  "active dbApp name = (name \<in> set (daemon_names dbApp))"

text \<open>A Kea target without a \<^verbatim>\<open>dhcp4\<close> and without a \<^verbatim>\<open>dhcp6\<close> daemon.\<close>

definition skipped :: "App \<Rightarrow> bool" where
  "skipped dbApp = (is_kea dbApp \<and> \<not> active dbApp ''dhcp4'' \<and> \<not> active dbApp ''dhcp6'')"

text \<open>The transport calls that a target gives rise to: one, or none when it has no DHCP daemon.\<close>

definition target_calls :: "App \<Rightarrow> ForwardCall list" where
  "target_calls dbApp =
     (case App_Details dbApp of
        AppOther \<Rightarrow> []
      | AppKea daemons \<Rightarrow>
          (let (dhcpDaemons, found) = collect_dhcp daemons (Map.empty, False)
           in if found then [forward_call dbApp dhcpDaemons] else []))"

subsection \<open>The outcomes of a cycle, target by target\<close>

text \<open>
  What \<^const>\<open>getLeaseStatsFromApp\<close> answers for each target of a cycle, in order, each
  call starting in the world that the calls before it (and the error lines logged
  between them) have left.  The list ends with the first panic.
\<close>

fun target_outcomes :: "ConnectedAgents \<Rightarrow> App list \<Rightarrow> world \<Rightarrow> (panic + error option) list" where
  "target_outcomes agents [] w = []"
| "target_outcomes agents (dbApp # dbApps) w =
     (case getLeaseStatsFromApp agents dbApp w of
        (Inl p, w') \<Rightarrow> [Inl p]
      | (Inr (Some err), w') \<Rightarrow>
          Inr (Some err) # target_outcomes agents dbApps (log_add (LogAppError dbApp err) w')
      | (Inr None, w') \<Rightarrow> Inr None # target_outcomes agents dbApps w')"

text \<open>The number of targets that returned no error.\<close>

definition ok_count :: "(panic + error option) list \<Rightarrow> int" where
  "ok_count outs = int (length (filter (\<lambda>r. r = Inr None) outs))"

definition errors_of :: "(panic + error option) list \<Rightarrow> error list" where
  "errors_of outs = concat (map (\<lambda>r. case r of Inr (Some err) \<Rightarrow> [err] | _ \<Rightarrow> []) outs)"


definition no_panic :: "(panic + error option) list \<Rightarrow> bool" where
  "no_panic outs = list_all (\<lambda>r. \<not> isl r) outs"

text \<open>The cycle's result with one more target counted as succeeded.\<close>

definition bump :: "(panic + int \<times> error option) \<times> world \<Rightarrow> (panic + int \<times> error option) \<times> world" where
  "bump r = (case r of (Inl p, w) \<Rightarrow> (Inl p, w) | (Inr (n, e), w) \<Rightarrow> (Inr (n + 1, e), w))"

subsection \<open>Result sets\<close>

text \<open>No row of the response has more values than the result set has columns.\<close>

definition fits :: "StatLeaseGetResponse \<Rightarrow> bool" where
  "fits r =
     (case Arguments r of
        None \<Rightarrow> True
      | Some args \<Rightarrow>
          list_all (\<lambda>row. length row \<le> length (Columns (ResultSet args))) (Rows (ResultSet args)))"

text \<open>
  The lines expected for a result set: for every row, in order, its index and then each
  of its values next to the name of the column at the same position.
\<close>

definition rows_log :: "string list \<Rightarrow> nat \<Rightarrow> int list list \<Rightarrow> log_entry list" where
  "rows_log cols idx rows =
     concat (map (\<lambda>(i, row). LogRow i # map (\<lambda>(c, v). LogCell c v) (zip cols row))
                 (enumerate idx rows))"

definition resp_log :: "StatLeaseGetResponse \<Rightarrow> log_entry list" where
  "resp_log r =
     (case Arguments r of
        None \<Rightarrow> []
      | Some args \<Rightarrow> rows_log (Columns (ResultSet args)) 0 (Rows (ResultSet args)))"

text \<open>A storage call that writes.\<close>

fun is_write :: "db_call \<Rightarrow> bool" where
  "is_write GetAppsByType = False"
| "is_write (AddEvent event) = True"

subsection \<open>Example inputs\<close>

definition world0 :: world where
  "world0 = \<lparr>sent = [], logs = [], db_calls = [], dispatched = []\<rparr>"

definition machine5 :: Machine where
  "machine5 = \<lparr>Machine_ID = 5, Machine_Address = ''10.0.0.1'', Machine_AgentPort = 8080,
                Machine_State_Hostname = ''alpha''\<rparr>"

definition kea_app :: "int \<Rightarrow> string list \<Rightarrow> App" where
  "kea_app n names =
     \<lparr>App_ID = n, App_Type = ''kea'', App_Meta_Version = ''1.7.3'',
      App_CtrlAddress = ''localhost'', App_CtrlPort = 8000, App_Machine = machine5,
      App_Details = AppKea (map (\<lambda>name. \<lparr>KeaDaemon_Name = name\<rparr>) names)\<rparr>"

text \<open>A transport whose first call fails and whose later calls bring empty responses.\<close>

definition agents_first_fails :: ConnectedAgents where
  "agents_first_fails history call =
     (if history = [] then Inl (Error ''unreachable'') else Inr (None, [], []))"

definition stats_resp :: "string list \<Rightarrow> int list list \<Rightarrow> StatLeaseGetResponse" where
  "stats_resp cols rows =
     \<lparr>Header_Result = 0, Header_Text = ''ok'', Header_Daemon = ''dhcp4'',
      Arguments = Some \<lparr>ResultSet = \<lparr>Columns = cols, Rows = rows\<rparr>, Timestamp = ''now''\<rparr>\<rparr>"

text \<open>A transport that always brings the given response to the first command.\<close>

definition agents_answering :: "StatLeaseGetResponse \<Rightarrow> ConnectedAgents" where
  "agents_answering resp history call = Inr (None, [resp], [])"

subsection \<open>The writer task, event by event\<close>




subsection \<open>Example inputs for the event center\<close>



definition machine6 :: Machine where
  "machine6 = \<lparr>Machine_ID = 6, Machine_Address = ''10.0.0.2'', Machine_AgentPort = 8080,
                Machine_State_Hostname = ''beta''\<rparr>"

definition daemon_of :: "int \<Rightarrow> string \<Rightarrow> Daemon" where
  "daemon_of n name =
     \<lparr>Daemon_ID = n, Daemon_Name = name, Daemon_AppID = 1, Daemon_App = kea_app 1 [name]\<rparr>"

definition subnet_of :: "int \<Rightarrow> string \<Rightarrow> Subnet" where
  "subnet_of n cidr = \<lparr>Subnet_ID = n, Subnet_Prefix = cidr\<rparr>"

subsection \<open>Related objects by kind\<close>

text \<open>The four kinds of related object that \<^verbatim>\<open>CreateEvent\<close> tells apart, and anything else.\<close>

datatype kind = KDaemon | KApp | KMachine | KSubnet | KOther

fun kind_of :: "object \<Rightarrow> kind" where
  "kind_of (ObjDaemon d) = KDaemon"
| "kind_of (ObjApp app) = KApp"
| "kind_of (ObjMachine m) = KMachine"
| "kind_of (ObjSubnet s) = KSubnet"
| "kind_of ObjOther = KOther"

text \<open>The placeholder of a kind and the descriptor (tag) of an object.\<close>

fun placeholder :: "kind \<Rightarrow> string" where
  "placeholder KDaemon = ''{daemon}''"
| "placeholder KApp = ''{app}''"
| "placeholder KMachine = ''{machine}''"
| "placeholder KSubnet = ''{subnet}''"
| "placeholder KOther = []"

fun descriptor :: "object \<Rightarrow> string" where
  "descriptor (ObjDaemon d) = daemonTag d"
| "descriptor (ObjApp app) = appTag app"
| "descriptor (ObjMachine m) = machineTag m"
| "descriptor (ObjSubnet s) = subnetTag s"
| "descriptor ObjOther = []"

text \<open>
  Replacing, for each object in turn, every placeholder of its kind with its descriptor.
\<close>

fun substitute :: "object list \<Rightarrow> string \<Rightarrow> string" where
  "substitute [] text = text"
| "substitute (obj # objects) text =
     substitute objects
       (if kind_of obj = KOther then text
        else Replace text (placeholder (kind_of obj)) (descriptor obj))"

text \<open>
  The objects of a list without those that come after an object of the same kind: the
  first object of each kind, in the order of the list.
\<close>

fun firsts :: "kind list \<Rightarrow> object list \<Rightarrow> object list" where
  "firsts seen [] = []"
| "firsts seen (obj # objects) =
     (if kind_of obj \<in> set seen then firsts seen objects
      else obj # firsts (kind_of obj # seen) objects)"

definition first_of_each_kind :: "object list \<Rightarrow> object list" where
  "first_of_each_kind objects = firsts [] objects"

text \<open>
  A string that contains none of the four placeholders, and an object whose text
  attributes (the ones its descriptor prints) are such strings.
\<close>

definition placeholders :: "string list" where
  "placeholders = [''{daemon}'', ''{app}'', ''{machine}'', ''{subnet}'']"

definition clean :: "string \<Rightarrow> bool" where
  "clean s = list_all (\<lambda>ph. \<not> sublist ph s) placeholders"

fun clean_object :: "object \<Rightarrow> bool" where
  "clean_object (ObjDaemon d) = (clean (Daemon_Name d) \<and> clean (App_Type (Daemon_App d)))"
| "clean_object (ObjApp app) = (clean (App_Type app) \<and> clean (App_Meta_Version app))"
| "clean_object (ObjMachine m) = (clean (Machine_Address m) \<and> clean (Machine_State_Hostname m))"
| "clean_object (ObjSubnet s) = clean (Subnet_Prefix s)"
| "clean_object ObjOther = True"

text \<open>The objects of one kind in a list, in order.\<close>

definition daemons_of :: "object list \<Rightarrow> Daemon list" where
  "daemons_of objects = concat (map (\<lambda>obj. case obj of ObjDaemon d \<Rightarrow> [d] | _ \<Rightarrow> []) objects)"

definition apps_of :: "object list \<Rightarrow> App list" where
  "apps_of objects = concat (map (\<lambda>obj. case obj of ObjApp app \<Rightarrow> [app] | _ \<Rightarrow> []) objects)"

definition machines_of :: "object list \<Rightarrow> Machine list" where
  "machines_of objects = concat (map (\<lambda>obj. case obj of ObjMachine m \<Rightarrow> [m] | _ \<Rightarrow> []) objects)"

definition subnets_of :: "object list \<Rightarrow> Subnet list" where
  "subnets_of objects = concat (map (\<lambda>obj. case obj of ObjSubnet s \<Rightarrow> [s] | _ \<Rightarrow> []) objects)"

text \<open>The identifier of the last of them, or the zero value when there is none.\<close>

definition last_id :: "('a \<Rightarrow> int) \<Rightarrow> 'a list \<Rightarrow> int" where
  "last_id ident xs = (if xs = [] then 0 else ident (last xs))"


section \<open>Properties of the statistics puller\<close>

subsection \<open>Collecting the daemons\<close>

lemma collect_dhcp_found:
  "snd (collect_dhcp ds (m, f)) =
     (f \<or> (\<exists>d \<in> set ds. KeaDaemon_Name d = ''dhcp4'' \<or> KeaDaemon_Name d = ''dhcp6''))"
  by (induction ds arbitrary: m f) auto

lemma collect_dhcp_map:
  "fst (collect_dhcp ds (m, f)) k =
     (if (k = ''dhcp4'' \<or> k = ''dhcp6'') \<and> k \<in> KeaDaemon_Name ` set ds then Some True else m k)"
  by (induction ds arbitrary: m f) auto

lemma stat_cmds_commands:
  "map Command (stat_cmds m) =
     (if daemons_get m ''dhcp4'' then [''stat-lease4-get'', ''stat-lease6-get''] else [])"
  by (simp add: stat_cmds_def)

text \<open>The batch follows the \<^verbatim>\<open>dhcp4\<close> daemon alone.\<close>

lemma stat_cmds_follow_dhcp4:
  "map Command (stat_cmds (fst (collect_dhcp ds (Map.empty, False)))) =
     (if ''dhcp4'' \<in> KeaDaemon_Name ` set ds
      then [''stat-lease4-get'', ''stat-lease6-get''] else [])"
  by (simp add: stat_cmds_commands daemons_get_def collect_dhcp_map)

lemma skip_call:
  assumes "skipped a"
  shows "getLeaseStatsFromApp agents a w = (Inr None, w)"
proof -
  from assms obtain ds where ds: "App_Details a = AppKea ds"
    by (auto simp: skipped_def is_kea_def split: AppDetails.splits)
  with assms have "\<not> snd (collect_dhcp ds (Map.empty, False))"
    unfolding collect_dhcp_found by (force simp: skipped_def active_def daemon_names_def)
  then show ?thesis
    by (cases "collect_dhcp ds (Map.empty, False)") (simp add: getLeaseStatsFromApp_def ds)
qed

subsection \<open>Processing touches the log only\<close>

lemma log_cells_frame:
  "sent (snd (log_cells cols colIdx row w)) = sent w \<and>
   db_calls (snd (log_cells cols colIdx row w)) = db_calls w \<and>
   dispatched (snd (log_cells cols colIdx row w)) = dispatched w"
  by (induction row arbitrary: colIdx w) (auto simp: log_add_def)

lemma log_rows_frame:
  "sent (snd (log_rows cols idx rows w)) = sent w \<and>
   db_calls (snd (log_rows cols idx rows w)) = db_calls w \<and>
   dispatched (snd (log_rows cols idx rows w)) = dispatched w"
proof (induction rows arbitrary: idx w)
  case Nil
  show ?case by simp
next
  case (Cons row rows)
  obtain r w' where c: "log_cells cols 0 row (log_add (LogRow idx) w) = (r, w')"
    by (cases "log_cells cols 0 row (log_add (LogRow idx) w)")
  have w': "sent w' = sent w \<and> db_calls w' = db_calls w \<and> dispatched w' = dispatched w"
    using log_cells_frame[of cols 0 row "log_add (LogRow idx) w"] c
    by (simp add: log_add_def)
  show ?case
  proof (cases r)
    case None
    with c w' Cons.IH[of "Suc idx" w'] show ?thesis by simp
  next
    case (Some p)
    with c w' show ?thesis by simp
  qed
qed

lemma log_resps_frame:
  "sent (snd (log_resps rs w)) = sent w \<and>
   db_calls (snd (log_resps rs w)) = db_calls w \<and>
   dispatched (snd (log_resps rs w)) = dispatched w"
proof (induction rs arbitrary: w)
  case Nil
  show ?case by simp
next
  case (Cons r rs)
  show ?case
  proof (cases "Arguments r")
    case None
    then show ?thesis using Cons.IH by simp
  next
    case (Some args)
    obtain q w' where c: "log_rows (Columns (ResultSet args)) 0 (Rows (ResultSet args)) w = (q, w')"
      by (cases "log_rows (Columns (ResultSet args)) 0 (Rows (ResultSet args)) w")
    have w': "sent w' = sent w \<and> db_calls w' = db_calls w \<and> dispatched w' = dispatched w"
      using log_rows_frame[of "Columns (ResultSet args)" 0 "Rows (ResultSet args)" w] c by simp
    show ?thesis
    proof (cases q)
      case None
      with c w' Some Cons.IH[of w'] show ?thesis by simp
    next
      case (Some p)
      with c w' \<open>Arguments r = Some args\<close> show ?thesis by simp
    qed
  qed
qed

lemma getLeaseStatsFromApp_frame:
  "sent (snd (getLeaseStatsFromApp agents a w)) = sent w @ target_calls a \<and>
   db_calls (snd (getLeaseStatsFromApp agents a w)) = db_calls w \<and>
   dispatched (snd (getLeaseStatsFromApp agents a w)) = dispatched w"
proof (cases "App_Details a")
  case AppOther
  then show ?thesis by (simp add: getLeaseStatsFromApp_def target_calls_def)
next
  case (AppKea ds)
  obtain m found where cd: "collect_dhcp ds (Map.empty, False) = (m, found)"
    by (cases "collect_dhcp ds (Map.empty, False)")
  show ?thesis
  proof (cases found)
    case False
    with AppKea cd show ?thesis by (simp add: getLeaseStatsFromApp_def target_calls_def)
  next
    case True
    let ?call = "forward_call a m"
    let ?w1 = "w\<lparr>sent := sent w @ [?call]\<rparr>"
    have tc: "target_calls a = [?call]"
      using AppKea cd True by (simp add: target_calls_def)
    show ?thesis
    proof (cases "agents (sent w) ?call")
      case (Inl err)
      with AppKea cd True tc show ?thesis by (simp add: getLeaseStatsFromApp_def)
    next
      case (Inr res)
      obtain ce s4 s6 where res: "res = (ce, s4, s6)" by (cases res)
      show ?thesis
      proof (cases ce)
        case (Some err)
        with AppKea cd True tc Inr res show ?thesis by (simp add: getLeaseStatsFromApp_def)
      next
        case None
        let ?wa = "log_add (LogStats4Resp s4) (log_add (LogApp a) ?w1)"
        obtain p2 w2 where l4: "log_resps s4 ?wa = (p2, w2)" by (cases "log_resps s4 ?wa")
        have w2: "sent w2 = sent w @ [?call] \<and> db_calls w2 = db_calls w \<and> dispatched w2 = dispatched w"
          using log_resps_frame[of s4 ?wa] l4 by (simp add: log_add_def)
        let ?wb = "log_add (LogStats6Resp s6) w2"
        obtain p3 w3 where l6: "log_resps s6 ?wb = (p3, w3)" by (cases "log_resps s6 ?wb")
        have w3: "sent w3 = sent w @ [?call] \<and> db_calls w3 = db_calls w \<and> dispatched w3 = dispatched w"
          using log_resps_frame[of s6 ?wb] l6 w2 by (simp add: log_add_def)
        from AppKea cd True tc Inr res None l4 l6 w2 w3 show ?thesis
          by (cases p2; cases p3) (simp_all add: getLeaseStatsFromApp_def)
      qed
    qed
  qed
qed

lemma gather_loop_frame:
  "db_calls (snd (gather_loop agents apps lastErr cnt w)) = db_calls w \<and>
   dispatched (snd (gather_loop agents apps lastErr cnt w)) = dispatched w"
proof (induction apps arbitrary: lastErr cnt w)
  case Nil
  show ?case by simp
next
  case (Cons a apps)
  obtain r w' where r: "getLeaseStatsFromApp agents a w = (r, w')"
    by (cases "getLeaseStatsFromApp agents a w")
  have w': "db_calls w' = db_calls w \<and> dispatched w' = dispatched w"
    using getLeaseStatsFromApp_frame[of agents a w] r by simp
  show ?case
  proof (cases r)
    case (Inl p)
    with r w' show ?thesis by simp
  next
    case (Inr e)
    show ?thesis
    proof (cases e)
      case None
      with r w' Inr Cons.IH[of lastErr "cnt + 1" w'] show ?thesis by simp
    next
      case (Some err)
      with r w' Inr Cons.IH[of "Some err" cnt "log_add (LogAppError a err) w'"] show ?thesis
        by (simp add: log_add_def)
    qed
  qed
qed

subsection \<open>Rows that fit the columns\<close>

lemma log_cells_fits:
  "colIdx + length row \<le> length cols \<Longrightarrow>
   log_cells cols colIdx row w =
     (None, w\<lparr>logs := logs w @ map (\<lambda>(c, v). LogCell c v) (zip (drop colIdx cols) row)\<rparr>)"
proof (induction row arbitrary: colIdx w)
  case Nil
  show ?case by simp
next
  case (Cons col row)
  then have lt: "colIdx < length cols" by simp
  have d: "drop colIdx cols = cols ! colIdx # drop (Suc colIdx) cols"
    using lt by (simp add: Cons_nth_drop_Suc)
  from Cons.prems have "Suc colIdx + length row \<le> length cols" by simp
  from Cons.IH[OF this] lt show ?case by (simp add: d log_add_def)
qed

lemma log_rows_fits:
  "list_all (\<lambda>row. length row \<le> length cols) rows \<Longrightarrow>
   log_rows cols idx rows w = (None, w\<lparr>logs := logs w @ rows_log cols idx rows\<rparr>)"
proof (induction rows arbitrary: idx w)
  case Nil
  show ?case by (simp add: rows_log_def)
next
  case (Cons row rows)
  then have "0 + length row \<le> length cols" and rest: "list_all (\<lambda>row. length row \<le> length cols) rows"
    by simp_all
  from log_cells_fits[OF this(1)] Cons.IH[OF rest]
  show ?case by (simp add: rows_log_def log_add_def)
qed

lemma log_resps_fits:
  "list_all fits rs \<Longrightarrow>
   log_resps rs w = (None, w\<lparr>logs := logs w @ concat (map resp_log rs)\<rparr>)"
proof (induction rs arbitrary: w)
  case Nil
  show ?case by simp
next
  case (Cons r rs)
  then have rest: "list_all fits rs" and r: "fits r" by simp_all
  show ?case
  proof (cases "Arguments r")
    case None
    then show ?thesis using Cons.IH[OF rest] by (simp add: resp_log_def)
  next
    case (Some args)
    with r have "list_all (\<lambda>row. length row \<le> length (Columns (ResultSet args))) (Rows (ResultSet args))"
      by (simp add: fits_def)
    from log_rows_fits[OF this] Cons.IH[OF rest] Some
    show ?thesis by (simp add: resp_log_def)
  qed
qed

text \<open>A row with more values than there are columns ends in a panic.\<close>

lemma log_cells_too_long:
  "length cols < colIdx + length row \<Longrightarrow> colIdx \<le> length cols \<Longrightarrow>
   fst (log_cells cols colIdx row w) = Some (IndexOutOfRange (length cols) (length cols))"
proof (induction row arbitrary: colIdx w)
  case Nil
  then show ?case by simp
next
  case (Cons col row)
  show ?case
  proof (cases "colIdx < length cols")
    case True
    with Cons.prems have "length cols < Suc colIdx + length row" "Suc colIdx \<le> length cols"
      by simp_all
    from Cons.IH[OF this] True show ?thesis by simp
  next
    case False
    with Cons.prems have "colIdx = length cols" by simp
    then show ?thesis by simp
  qed
qed

subsection \<open>The loop over the targets\<close>

lemma gather_loop_bump:
  "gather_loop agents apps lastErr (cnt + 1) w = bump (gather_loop agents apps lastErr cnt w)"
proof (induction apps arbitrary: lastErr cnt w)
  case Nil
  show ?case by (simp add: bump_def)
next
  case (Cons a apps)
  obtain r w' where r: "getLeaseStatsFromApp agents a w = (r, w')"
    by (cases "getLeaseStatsFromApp agents a w")
  show ?case
  proof (cases r)
    case (Inl p)
    with r show ?thesis by (simp add: bump_def)
  next
    case (Inr e)
    show ?thesis
    proof (cases e)
      case None
      with r Inr show ?thesis using Cons.IH[of lastErr "cnt + 1" w'] by simp
    next
      case (Some err)
      with r Inr show ?thesis using Cons.IH by simp
    qed
  qed
qed

lemma gather_loop_insert_skipped:
  assumes "skipped a"
  shows "gather_loop agents (xs @ a # ys) lastErr cnt w
           = bump (gather_loop agents (xs @ ys) lastErr cnt w)"
proof (induction xs arbitrary: lastErr cnt w)
  case Nil
  show ?case by (simp add: skip_call[OF assms] gather_loop_bump)
next
  case (Cons x xs)
  obtain r w' where r: "getLeaseStatsFromApp agents x w = (r, w')"
    by (cases "getLeaseStatsFromApp agents x w")
  show ?case
  proof (cases r)
    case (Inl p)
    with r show ?thesis by (simp add: bump_def)
  next
    case (Inr e)
    with r show ?thesis using Cons.IH by (cases e) simp_all
  qed
qed

lemma gather_loop_outcomes:
  assumes "no_panic (target_outcomes agents apps w)"
  shows "length (target_outcomes agents apps w) = length apps \<and>
         sent (snd (gather_loop agents apps lastErr cnt w)) = sent w @ concat (map target_calls apps) \<and>
         fst (gather_loop agents apps lastErr cnt w) =
           Inr (cnt + ok_count (target_outcomes agents apps w),
                if errors_of (target_outcomes agents apps w) = [] then lastErr
                else Some (last (errors_of (target_outcomes agents apps w))))"
  using assms
proof (induction apps arbitrary: lastErr cnt w)
  case Nil
  show ?case by (simp add: ok_count_def errors_of_def)
next
  case (Cons a apps)
  obtain r w' where r: "getLeaseStatsFromApp agents a w = (r, w')"
    by (cases "getLeaseStatsFromApp agents a w")
  have w': "sent w' = sent w @ target_calls a"
    using getLeaseStatsFromApp_frame[of agents a w] r by simp
  show ?case
  proof (cases r)
    case (Inl p)
    with r Cons.prems show ?thesis by (simp add: no_panic_def)
  next
    case (Inr e)
    show ?thesis
    proof (cases e)
      case None
      with r Inr Cons.prems have np: "no_panic (target_outcomes agents apps w')"
        by (simp add: no_panic_def)
      from Cons.IH[OF np, of lastErr "cnt + 1"] r Inr None w' show ?thesis
        by (simp add: ok_count_def errors_of_def)
    next
      case (Some err)
      let ?w = "log_add (LogAppError a err) w'"
      from r Inr Some Cons.prems have np: "no_panic (target_outcomes agents apps ?w)"
        by (simp add: no_panic_def)
      from Cons.IH[OF np, of "Some err" cnt] r Inr Some w' show ?thesis
        by (simp add: ok_count_def errors_of_def log_add_def)
    qed
  qed
qed

lemma gather_loop_panics:
  assumes "\<not> no_panic (target_outcomes agents apps w)"
  shows "isl (fst (gather_loop agents apps lastErr cnt w))"
  using assms
proof (induction apps arbitrary: lastErr cnt w)
  case Nil
  then show ?case by (simp add: no_panic_def)
next
  case (Cons a apps)
  obtain r w' where r: "getLeaseStatsFromApp agents a w = (r, w')"
    by (cases "getLeaseStatsFromApp agents a w")
  show ?case
  proof (cases r)
    case (Inl p)
    with r show ?thesis by simp
  next
    case (Inr e)
    show ?thesis
    proof (cases e)
      case None
      with r Inr Cons.prems have "\<not> no_panic (target_outcomes agents apps w')"
        by (simp add: no_panic_def)
      from Cons.IH[OF this, of lastErr "cnt + 1"] r Inr None show ?thesis by simp
    next
      case (Some err)
      with r Inr Cons.prems
      have "\<not> no_panic (target_outcomes agents apps (log_add (LogAppError a err) w'))"
        by (simp add: no_panic_def)
      from Cons.IH[OF this, of "Some err" cnt] r Inr Some show ?thesis by simp
    qed
  qed
qed

text \<open>A cycle over a list of targets returns an outcome unless a target panics.\<close>

lemma gatherLeaseStats_returns_iff:
  "isl (fst (gatherLeaseStats (Inr apps) agents w))
     = (\<not> no_panic (target_outcomes agents apps (after_fetch w)))"
proof (cases "no_panic (target_outcomes agents apps (after_fetch w))")
  case True
  from gather_loop_outcomes[OF True, of None 0] True show ?thesis
    by (simp add: gatherLeaseStats_def)
next
  case False
  from gather_loop_panics[OF False, of None 0] False show ?thesis
    by (simp add: gatherLeaseStats_def)
qed

section \<open>Claims about the statistics puller\<close>

text \<open>
  C1.  The claim: the command batch contains \<^verbatim>\<open>stat-lease4-get\<close> if and only if a
  \<^verbatim>\<open>dhcp4\<close> daemon is active on the target, and \<^verbatim>\<open>stat-lease6-get\<close> if and only if
  a \<^verbatim>\<open>dhcp6\<close> daemon is.  The code guards both commands with the \<^verbatim>\<open>dhcp4\<close> entry
  of the map.  Evaluated here: for a target with a \<^verbatim>\<open>dhcp6\<close> daemon only, the
  transport is called with an empty batch; for a target with a \<^verbatim>\<open>dhcp4\<close> daemon only,
  the batch holds both commands.
\<close>

theorem dhcp6_only_target_gets_no_lease6_command:
  "map (map Command \<circ> fwd_cmds)
       (sent (snd (getLeaseStatsFromApp agents (kea_app 1 [''dhcp6'']) world0))) = [[]]
   \<and> map (map Command \<circ> fwd_cmds)
       (sent (snd (getLeaseStatsFromApp agents (kea_app 2 [''dhcp4'']) world0)))
       = [[''stat-lease4-get'', ''stat-lease6-get'']]"
proof -
  have a: "target_calls (kea_app 1 [''dhcp6''])
             = [forward_call (kea_app 1 [''dhcp6'']) [''dhcp6'' \<mapsto> True]]"
    by (simp add: target_calls_def kea_app_def)
  have b: "target_calls (kea_app 2 [''dhcp4''])
             = [forward_call (kea_app 2 [''dhcp4'']) [''dhcp4'' \<mapsto> True]]"
    by (simp add: target_calls_def kea_app_def)
  show ?thesis
    using getLeaseStatsFromApp_frame[of agents "kea_app 1 [''dhcp6'']" world0]
          getLeaseStatsFromApp_frame[of agents "kea_app 2 [''dhcp4'']" world0]
    by (simp add: a b world0_def forward_call_def stat_cmds_commands daemons_get_def)
qed

text \<open>
  C2, as amended.  When no row of the decoded responses has more values than its result
  set has columns, processing a target completes without error and logs every row in
  full: the index of the row and each value next to its column name.  No row is passed
  over, a row with fewer values than columns included.
\<close>

theorem rows_within_columns_are_all_logged:
  assumes "App_Details dbApp = AppKea daemons"
    and "collect_dhcp daemons (Map.empty, False) = (dhcpDaemons, True)"
    and "agents (sent w) (forward_call dbApp dhcpDaemons) = Inr (None, stats4Resp, stats6Resp)"
    and "list_all fits stats4Resp" and "list_all fits stats6Resp"
  shows "getLeaseStatsFromApp agents dbApp w =
           (Inr None,
            w\<lparr>sent := sent w @ [forward_call dbApp dhcpDaemons],
              logs := logs w @ [LogApp dbApp, LogStats4Resp stats4Resp]
                        @ concat (map resp_log stats4Resp)
                        @ [LogStats6Resp stats6Resp]
                        @ concat (map resp_log stats6Resp)\<rparr>)"
  using assms(1,2,3)
  by (simp add: getLeaseStatsFromApp_def log_resps_fits[OF assms(4)] log_resps_fits[OF assms(5)]
        log_add_def)

theorem rows_within_columns_witness:
  "logs (snd (getLeaseStatsFromApp
                (agents_answering (stats_resp [''subnet-id'', ''total''] [[7], [8, 9]]))
                (kea_app 1 [''dhcp4'']) world0))
     = [LogApp (kea_app 1 [''dhcp4'']),
        LogStats4Resp [stats_resp [''subnet-id'', ''total''] [[7], [8, 9]]],
        LogRow 0, LogCell ''subnet-id'' 7,
        LogRow 1, LogCell ''subnet-id'' 8, LogCell ''total'' 9,
        LogStats6Resp []]"
proof -
  let ?r = "stats_resp [''subnet-id'', ''total''] [[7], [8, 9]]"
  have 1: "App_Details (kea_app 1 [''dhcp4'']) = AppKea [\<lparr>KeaDaemon_Name = ''dhcp4''\<rparr>]"
    by (simp add: kea_app_def)
  have 2: "collect_dhcp [\<lparr>KeaDaemon_Name = ''dhcp4''\<rparr>] (Map.empty, False)
             = ([''dhcp4'' \<mapsto> True], True)"
    by simp
  have 3: "agents_answering ?r (sent world0)
             (forward_call (kea_app 1 [''dhcp4'']) [''dhcp4'' \<mapsto> True]) = Inr (None, [?r], [])"
    by (simp add: agents_answering_def)
  have 4: "list_all fits [?r]" by (simp add: fits_def stats_resp_def)
  have 5: "list_all fits []" by simp
  show ?thesis
    using rows_within_columns_are_all_logged[where agents = "agents_answering ?r" and w = world0,
            OF 1 2 3 4 5]
    by (simp add: world0_def resp_log_def rows_log_def stats_resp_def enumerate_eq_zip upt_rec)
qed

text \<open>
  C2 as stated fails.  With one column and the rows \<open>[1, 2]\<close> and \<open>[3]\<close>, reading the
  second value of the first row indexes the columns out of range: the call panics and the
  row \<open>[3]\<close> is never reached.  With two columns and the row \<open>[7]\<close>, the row is not
  passed over: its value is logged.
\<close>

theorem long_row_panics_short_row_is_logged:
  "fst (getLeaseStatsFromApp
          (agents_answering (stats_resp [''subnet-id''] [[1, 2], [3]]))
          (kea_app 1 [''dhcp4'']) world0) = Inl (IndexOutOfRange 1 1)
   \<and> logs (snd (getLeaseStatsFromApp
          (agents_answering (stats_resp [''subnet-id''] [[1, 2], [3]]))
          (kea_app 1 [''dhcp4'']) world0))
     = [LogApp (kea_app 1 [''dhcp4'']),
        LogStats4Resp [stats_resp [''subnet-id''] [[1, 2], [3]]],
        LogRow 0, LogCell ''subnet-id'' 1]
   \<and> LogCell ''subnet-id'' 7 \<in> set (logs (snd (getLeaseStatsFromApp
          (agents_answering (stats_resp [''subnet-id'', ''total''] [[7], [8, 9]]))
          (kea_app 1 [''dhcp4'']) world0)))"
  by (simp add: getLeaseStatsFromApp_def kea_app_def agents_answering_def stats_resp_def
        world0_def log_add_def forward_call_def)








text \<open>
  C4, as amended.  The only storage call of a collection cycle is the read of the list of
  targets; whatever the targets answer, the cycle writes nothing through the storage
  collaborator (the decoded rows are logged, see C2).
\<close>

theorem gatherLeaseStats_only_reads_storage:
  "db_calls (snd (gatherLeaseStats db agents w)) = db_calls w @ [GetAppsByType]"
proof (cases db)
  case (Inl err)
  then show ?thesis by (simp add: gatherLeaseStats_def after_fetch_def)
next
  case (Inr apps)
  then show ?thesis
    using gather_loop_frame[of agents apps None 0 "after_fetch w"]
    by (simp add: gatherLeaseStats_def after_fetch_def)
qed

text \<open>
  C4 as stated fails.  A cycle over one target whose batch succeeds and brings a row:
  the target is counted as succeeded, the row is logged, and no storage call of the
  cycle is a write.
\<close>

theorem successful_target_writes_nothing:
  "fst (gatherLeaseStats (Inr [kea_app 1 [''dhcp4'']])
          (agents_answering (stats_resp [''subnet-id'', ''total''] [[1, 256]])) world0)
     = Inr (1, None)
   \<and> LogCell ''total'' 256 \<in> set (logs (snd (gatherLeaseStats (Inr [kea_app 1 [''dhcp4'']])
          (agents_answering (stats_resp [''subnet-id'', ''total''] [[1, 256]])) world0)))
   \<and> \<not> list_ex is_write (db_calls (snd (gatherLeaseStats (Inr [kea_app 1 [''dhcp4'']])
          (agents_answering (stats_resp [''subnet-id'', ''total''] [[1, 256]])) world0)))"
  by (simp add: gatherLeaseStats_def getLeaseStatsFromApp_def kea_app_def agents_answering_def
        stats_resp_def world0_def after_fetch_def log_add_def forward_call_def)

lemma skipped_ca: "skipped (kea_app n [''ca''])"
  by (simp add: skipped_def is_kea_def active_def daemon_names_def kea_app_def)

text \<open>
  C7.  For a target without a \<^verbatim>\<open>dhcp4\<close> and without a \<^verbatim>\<open>dhcp6\<close> daemon,
  \<^verbatim>\<open>getLeaseStatsFromApp\<close> returns \<^verbatim>\<open>nil\<close> and leaves the world as it was: no
  transport call, no log line.  In a cycle, the world at the end (transport calls and
  error lines included) and the error or panic of the outcome are what they are without
  that target: it is not counted as a failure.
\<close>

theorem skipped_target_sends_nothing_and_is_no_failure:
  assumes "skipped a"
  shows "getLeaseStatsFromApp agents a w = (Inr None, w)
       \<and> snd (gatherLeaseStats (Inr (xs @ a # ys)) agents w)
           = snd (gatherLeaseStats (Inr (xs @ ys)) agents w)
       \<and> map_sum id snd (fst (gatherLeaseStats (Inr (xs @ a # ys)) agents w))
           = map_sum id snd (fst (gatherLeaseStats (Inr (xs @ ys)) agents w))"
proof -
  obtain r w' where g: "gather_loop agents (xs @ ys) None 0 (after_fetch w) = (r, w')"
    by (cases "gather_loop agents (xs @ ys) None 0 (after_fetch w)")
  have "gather_loop agents (xs @ a # ys) None 0 (after_fetch w) = bump (r, w')"
    using gather_loop_insert_skipped[OF assms, of agents xs ys None 0 "after_fetch w"] g by simp
  with g show ?thesis
    by (cases r) (auto simp: gatherLeaseStats_def bump_def skip_call[OF assms])
qed

theorem skipped_target_witness:
  "skipped (kea_app 2 [''ca''])
   \<and> getLeaseStatsFromApp agents_first_fails (kea_app 2 [''ca'']) world0 = (Inr None, world0)
   \<and> sent (snd (gatherLeaseStats (Inr [kea_app 2 [''ca'']]) agents_first_fails world0)) = []
   \<and> map_sum id snd (fst (gatherLeaseStats (Inr [kea_app 2 [''ca'']]) agents_first_fails world0))
       = Inr None"
proof -
  have e: "gatherLeaseStats (Inr []) agents_first_fails world0 = (Inr (0, None), after_fetch world0)"
    by (simp add: gatherLeaseStats_def)
  note t = skipped_target_sends_nothing_and_is_no_failure
         [OF skipped_ca, of agents_first_fails 2 world0 "[]" "[]"]
  have s: "sent (after_fetch world0) = []"
    by (simp add: after_fetch_def world0_def)
  from t show ?thesis
    by (simp add: e s skipped_ca)
qed

text \<open>
  C10.  A target without a \<^verbatim>\<open>dhcp4\<close> and without a \<^verbatim>\<open>dhcp6\<close> daemon is counted as
  succeeded: where the cycle without it returns the count \<open>n\<close> and the error \<open>e\<close>, the
  cycle with it returns \<open>n + 1\<close> and \<open>e\<close>, and this count is the number of targets
  for which \<^verbatim>\<open>getLeaseStatsFromApp\<close> returned no error.
\<close>

theorem skipped_target_counts_as_success:
  assumes "skipped a"
    and "fst (gatherLeaseStats (Inr (xs @ ys)) agents w) = Inr (n, e)"
  shows "fst (gatherLeaseStats (Inr (xs @ a # ys)) agents w) = Inr (n + 1, e)
       \<and> n + 1 = ok_count (target_outcomes agents (xs @ a # ys) (after_fetch w))"
proof -
  obtain w' where g: "gather_loop agents (xs @ ys) None 0 (after_fetch w) = (Inr (n, e), w')"
    using assms(2) by (cases "gather_loop agents (xs @ ys) None 0 (after_fetch w)")
      (simp add: gatherLeaseStats_def)
  have with_a: "gather_loop agents (xs @ a # ys) None 0 (after_fetch w) = (Inr (n + 1, e), w')"
    using gather_loop_insert_skipped[OF assms(1), of agents xs ys None 0 "after_fetch w"] g
    by (simp add: bump_def)
  have np: "no_panic (target_outcomes agents (xs @ a # ys) (after_fetch w))"
    using gather_loop_panics[of agents "xs @ a # ys" "after_fetch w" None 0] with_a by auto
  from gather_loop_outcomes[OF np, of None 0] with_a show ?thesis
    by (simp add: gatherLeaseStats_def)
qed

theorem skipped_target_counts_witness:
  "fst (gatherLeaseStats (Inr [kea_app 1 [''dhcp4''], kea_app 2 [''ca''], kea_app 3 [''dhcp4'']])
          agents_first_fails world0) = Inr (2, Some (Error ''unreachable''))"
proof -
  have h: "fst (gatherLeaseStats (Inr ([kea_app 1 [''dhcp4'']] @ [kea_app 3 [''dhcp4'']]))
                  agents_first_fails world0) = Inr (1, Some (Error ''unreachable''))"
    by (simp add: gatherLeaseStats_def getLeaseStatsFromApp_def kea_app_def
          agents_first_fails_def world0_def after_fetch_def log_add_def)
  from skipped_target_counts_as_success[OF skipped_ca h, of 2] show ?thesis by simp
qed

section \<open>Claims about the event center\<close>



subsection \<open>Replacing a placeholder\<close>

lemma Replace_Nil [simp]: "Replace [] old new = []"
  by (simp add: Replace.simps)

lemma Replace_match:
  "old \<noteq> [] \<Longrightarrow> prefix old (c # cs) \<Longrightarrow>
   Replace (c # cs) old new = new @ Replace (drop (length old) (c # cs)) old new"
  by (subst Replace.simps) simp

lemma Replace_skip:
  "old \<noteq> [] \<Longrightarrow> \<not> prefix old (c # cs) \<Longrightarrow>
   Replace (c # cs) old new = c # Replace cs old new"
  by (subst Replace.simps) simp

lemma Replace_absent:
  "old \<noteq> [] \<Longrightarrow> \<not> sublist old s \<Longrightarrow> Replace s old new = s"
proof (induction s)
  case Nil
  show ?case by simp
next
  case (Cons c cs)
  from Cons.prems(2) have np: "\<not> prefix old (c # cs)" and ns: "\<not> sublist old cs"
    by (auto simp: sublist_Cons_right)
  from Cons.IH[OF Cons.prems(1) ns] Replace_skip[OF Cons.prems(1) np]
  show ?case by simp
qed

lemma prefix_Replace:
  assumes old: "old \<noteq> []" and new: "new \<noteq> []"
  shows "prefix p (Replace s old new) \<Longrightarrow> hd new \<notin> set p \<Longrightarrow> prefix p s"
proof (induction "length s" arbitrary: s p rule: less_induct)
  case less
  show ?case
  proof (cases s)
    case Nil
    with less.prems show ?thesis by simp
  next
    case (Cons c cs)
    show ?thesis
    proof (cases "prefix old s")
      case True
      have "Replace s old new = new @ Replace (drop (length old) s) old new"
        using Replace_match[OF old] True Cons by simp
      with less.prems new have "p = []"
        by (cases p; cases new) auto
      then show ?thesis by simp
    next
      case False
      then have r: "Replace s old new = c # Replace cs old new"
        using Replace_skip[OF old] Cons by simp
      show ?thesis
      proof (cases p)
        case Nil
        then show ?thesis by simp
      next
        case (Cons q qs)
        with less.prems r have q: "q = c" and qs: "prefix qs (Replace cs old new)"
          and h: "hd new \<notin> set qs"
          by auto
        have "prefix qs cs"
          using less.hyps[of cs qs] \<open>s = c # cs\<close> qs h by simp
        with q Cons \<open>s = c # cs\<close> show ?thesis by simp
      qed
    qed
  qed
qed

lemma sublist_append_sep:
  assumes "sublist old (a @ b)" and "a \<noteq> []" and "last a \<notin> set old"
  shows "sublist old a \<or> sublist old b"
proof -
  from assms(1) consider "sublist old a" | "sublist old b"
    | xs1 xs2 where "old = xs1 @ xs2" "suffix xs1 a" "prefix xs2 b"
    by (auto simp: sublist_append)
  then show ?thesis
  proof cases
    case 3
    show ?thesis
    proof (cases "xs1 = []")
      case True
      with 3 show ?thesis by auto
    next
      case False
      with 3(2) assms(2) have "last xs1 = last a"
        by (auto simp: suffix_def)
      moreover have "last xs1 \<in> set xs1" using False by simp
      ultimately show ?thesis using 3(1) assms(3) by simp
    qed
  qed auto
qed

lemma Replace_leaves_none:
  assumes old: "old \<noteq> []" and new: "new \<noteq> []"
    and h: "hd new \<notin> set old" and l: "last new \<notin> set old" and n: "\<not> sublist old new"
  shows "\<not> sublist old (Replace s old new)"
proof (induction "length s" arbitrary: s rule: less_induct)
  case less
  show ?case
  proof (cases s)
    case Nil
    with old show ?thesis by simp
  next
    case (Cons c cs)
    show ?thesis
    proof (cases "prefix old s")
      case True
      have r: "Replace s old new = new @ Replace (drop (length old) s) old new"
        using Replace_match[OF old] True Cons by simp
      have "length (drop (length old) s) < length s"
        using old Cons by simp
      then have ih: "\<not> sublist old (Replace (drop (length old) s) old new)"
        by (rule less.hyps)
      show ?thesis
        unfolding r using sublist_append_sep[OF _ new l] n ih by blast
    next
      case False
      then have r: "Replace s old new = c # Replace cs old new"
        using Replace_skip[OF old] Cons by simp
      have ih: "\<not> sublist old (Replace cs old new)"
        using less.hyps[of cs] Cons by simp
      have "\<not> prefix old (c # Replace cs old new)"
      proof
        assume p: "prefix old (c # Replace cs old new)"
        from old obtain x xs where x: "old = x # xs" by (cases old) auto
        with p have "x = c" and "prefix xs (Replace cs old new)" by auto
        moreover have "hd new \<notin> set xs" using h x by simp
        ultimately have "prefix xs cs" using prefix_Replace[OF old new] by blast
        with \<open>x = c\<close> x Cons have "prefix old s" by simp
        with False show False by contradiction
      qed
      with ih show ?thesis unfolding r by (simp add: sublist_Cons_right)
    qed
  qed
qed

subsection \<open>The tags contain no placeholder of their own\<close>

lemma digit_char_no_brace: "digit_char n \<noteq> CHR ''{''"
proof
  assume "digit_char n = CHR ''{''"
  then have "(of_char (digit_char n) :: nat) = of_char (CHR ''{'')" by (simp only:)
  then have "n mod 10 = 75" by simp
  moreover have "n mod 10 < 10" by simp
  ultimately show False by linarith
qed

lemma digits_no_brace: "CHR ''{'' \<notin> set (digits n)"
proof (induction n rule: digits.induct)
  case (1 n)
  show ?case
  proof (cases "n < 10")
    case True
    then show ?thesis using digit_char_no_brace[of n] by (subst digits.simps) auto
  next
    case False
    with 1 show ?thesis using digit_char_no_brace[of n] by (subst digits.simps) auto
  qed
qed

lemma fmt_d_no_brace: "CHR ''{'' \<notin> set (fmt_d i)"
  by (simp add: fmt_d_def digits_no_brace)

lemma no_sublist_without_char:
  "c \<in> set old \<Longrightarrow> c \<notin> set s \<Longrightarrow> \<not> sublist old s"
  using set_mono_sublist by fastforce

lemma no_sublist_joined:
  assumes "c \<notin> set old" and "\<not> sublist old a" and "\<not> sublist old b"
  shows "\<not> sublist old (a @ [c] @ b)"
proof
  assume s: "sublist old (a @ [c] @ b)"
  then have "sublist old ((a @ [c]) @ b)" by simp
  then have "sublist old (a @ [c]) \<or> sublist old b"
    using sublist_append_sep[of old "a @ [c]" b] assms(1) by simp
  with assms(3) have "sublist old (a @ [c])" by simp
  then have "sublist old a \<or> sublist old [c]"
  proof (cases "a = []")
    case True
    then show ?thesis using \<open>sublist old (a @ [c])\<close> by simp
  next
    case False
    then show ?thesis
      using \<open>sublist old (a @ [c])\<close> assms(1)
      by (auto simp: sublist_append suffix_def prefix_Cons)
  qed
  moreover have "\<not> sublist old [c]" if "old \<noteq> []"
    using that assms(1) by (cases old) (auto simp: sublist_Cons_right prefix_Cons)
  ultimately show False using assms(2) by (cases "old = []") auto
qed

lemma fmt_d_free: "CHR ''{'' \<in> set old \<Longrightarrow> \<not> sublist old (fmt_d i)"
  by (rule no_sublist_without_char[OF _ fmt_d_no_brace])

lemma machineTag_free:
  assumes "\<not> sublist ''{machine}'' (Machine_Address m)"
    and "\<not> sublist ''{machine}'' (Machine_State_Hostname m)"
  shows "\<not> sublist ''{machine}'' (machineTag m)"
  unfolding machineTag_def dq_def
  by (intro no_sublist_joined assms fmt_d_free) (simp_all add: sublist_Cons_right)

lemma appTag_free:
  assumes "\<not> sublist ''{app}'' (App_Type a)"
    and "\<not> sublist ''{app}'' (App_Meta_Version a)"
  shows "\<not> sublist ''{app}'' (appTag a)"
  unfolding appTag_def dq_def
  by (intro no_sublist_joined assms fmt_d_free) (simp_all add: sublist_Cons_right)

lemma daemonTag_free:
  assumes "\<not> sublist ''{daemon}'' (Daemon_Name d)"
    and "\<not> sublist ''{daemon}'' (App_Type (Daemon_App d))"
  shows "\<not> sublist ''{daemon}'' (daemonTag d)"
  unfolding daemonTag_def dq_def
  by (intro no_sublist_joined assms fmt_d_free) (simp_all add: sublist_Cons_right)

lemma subnetTag_free:
  assumes "\<not> sublist ''{subnet}'' (Subnet_Prefix s)"
  shows "\<not> sublist ''{subnet}'' (subnetTag s)"
  unfolding subnetTag_def dq_def
  by (intro no_sublist_joined assms fmt_d_free) (simp_all add: sublist_Cons_right)

lemma tag_ends:
  "hd (machineTag m) = CHR ''<''" "last (machineTag m) = CHR ''>''" "machineTag m \<noteq> []"
  "hd (appTag a) = CHR ''<''" "last (appTag a) = CHR ''>''" "appTag a \<noteq> []"
  "hd (daemonTag d) = CHR ''<''" "last (daemonTag d) = CHR ''>''" "daemonTag d \<noteq> []"
  "hd (subnetTag s) = CHR ''<''" "last (subnetTag s) = CHR ''>''" "subnetTag s \<noteq> []"
  by (simp_all add: machineTag_def appTag_def daemonTag_def subnetTag_def)

subsection \<open>Several objects of one kind\<close>

lemma later_objects_change_no_text:
  assumes step: "\<And>x t r. tag_object (mk x) (t, r) = (Replace t ph (tg x), upd (idf x) r)"
    and ph: "ph \<noteq> []"
    and upd: "\<And>a b r. upd b (upd a r) = upd b r"
  shows "\<not> sublist ph t \<Longrightarrow>
         tag_objects (map mk xs) (t, r) = (t, if xs = [] then r else upd (idf (last xs)) r)"
proof (induction xs arbitrary: r)
  case Nil
  show ?case by simp
next
  case (Cons x xs)
  have "tag_object (mk x) (t, r) = (t, upd (idf x) r)"
    using step Replace_absent[OF ph Cons.prems] by simp
  with Cons.IH[OF Cons.prems, of "upd (idf x) r"] show ?case
    by (simp add: upd)
qed

lemma first_object_wins:
  assumes step: "\<And>x t r. tag_object (mk x) (t, r) = (Replace t ph (tg x), upd (idf x) r)"
    and ph: "ph \<noteq> []"
    and upd: "\<And>a b r. upd b (upd a r) = upd b r"
    and xs: "xs \<noteq> []"
    and new: "tg (hd xs) \<noteq> []" "hd (tg (hd xs)) \<notin> set ph" "last (tg (hd xs)) \<notin> set ph"
      "\<not> sublist ph (tg (hd xs))"
  shows "tag_objects (map mk xs) (t, r) = (Replace t ph (tg (hd xs)), upd (idf (last xs)) r)"
proof -
  from xs obtain y ys where xs': "xs = y # ys" by (cases xs) auto
  have clean: "\<not> sublist ph (Replace t ph (tg y))"
    using Replace_leaves_none[OF ph] new xs' by simp
  have "tag_objects (map mk xs) (t, r) = tag_objects (map mk ys) (Replace t ph (tg y), upd (idf y) r)"
    by (simp add: xs' step)
  also have "\<dots> = (Replace t ph (tg y), if ys = [] then upd (idf y) r else upd (idf (last ys)) (upd (idf y) r))"
    by (rule later_objects_change_no_text[where mk = mk and ph = ph and tg = tg and idf = idf
          and upd = upd, OF step ph upd clean])
  finally show ?thesis by (simp add: xs' upd)
qed

lemma machines_first_wins:
  assumes "ms \<noteq> []"
    and "\<not> sublist ''{machine}'' (Machine_Address (hd ms))"
    and "\<not> sublist ''{machine}'' (Machine_State_Hostname (hd ms))"
  shows "tag_objects (map ObjMachine ms) (text, r)
           = (Replace text ''{machine}'' (machineTag (hd ms)), r\<lparr>Rel_Machine := Machine_ID (last ms)\<rparr>)"
proof -
  have free: "\<not> sublist ''{machine}'' (machineTag (hd ms))"
    using assms(2-) by (rule machineTag_free)
  show ?thesis
    by (rule first_object_wins[where mk = ObjMachine and ph = "''{machine}''" and tg = machineTag
          and idf = Machine_ID and upd = "\<lambda>v r. r\<lparr>Rel_Machine := v\<rparr>"])
       (simp_all add: assms(1) free tag_ends)
qed

lemma apps_first_wins:
  assumes "as \<noteq> []"
    and "\<not> sublist ''{app}'' (App_Type (hd as))"
    and "\<not> sublist ''{app}'' (App_Meta_Version (hd as))"
  shows "tag_objects (map ObjApp as) (text, r)
           = (Replace text ''{app}'' (appTag (hd as)), r\<lparr>Rel_App := App_ID (last as)\<rparr>)"
proof -
  have free: "\<not> sublist ''{app}'' (appTag (hd as))"
    using assms(2-) by (rule appTag_free)
  show ?thesis
    by (rule first_object_wins[where mk = ObjApp and ph = "''{app}''" and tg = appTag
          and idf = App_ID and upd = "\<lambda>v r. r\<lparr>Rel_App := v\<rparr>"])
       (simp_all add: assms(1) free tag_ends)
qed

lemma daemons_first_wins:
  assumes "ds \<noteq> []"
    and "\<not> sublist ''{daemon}'' (Daemon_Name (hd ds))"
    and "\<not> sublist ''{daemon}'' (App_Type (Daemon_App (hd ds)))"
  shows "tag_objects (map ObjDaemon ds) (text, r)
           = (Replace text ''{daemon}'' (daemonTag (hd ds)), r\<lparr>Rel_Daemon := Daemon_ID (last ds)\<rparr>)"
proof -
  have free: "\<not> sublist ''{daemon}'' (daemonTag (hd ds))"
    using assms(2-) by (rule daemonTag_free)
  show ?thesis
    by (rule first_object_wins[where mk = ObjDaemon and ph = "''{daemon}''" and tg = daemonTag
          and idf = Daemon_ID and upd = "\<lambda>v r. r\<lparr>Rel_Daemon := v\<rparr>"])
       (simp_all add: assms(1) free tag_ends)
qed

lemma subnets_first_wins:
  assumes "ss \<noteq> []"
    and "\<not> sublist ''{subnet}'' (Subnet_Prefix (hd ss))"
  shows "tag_objects (map ObjSubnet ss) (text, r)
           = (Replace text ''{subnet}'' (subnetTag (hd ss)), r\<lparr>Rel_Subnet := Subnet_ID (last ss)\<rparr>)"
proof -
  have free: "\<not> sublist ''{subnet}'' (subnetTag (hd ss))"
    using assms(2-) by (rule subnetTag_free)
  show ?thesis
    by (rule first_object_wins[where mk = ObjSubnet and ph = "''{subnet}''" and tg = subnetTag
          and idf = Subnet_ID and upd = "\<lambda>v r. r\<lparr>Rel_Subnet := v\<rparr>"])
       (simp_all add: assms(1) free tag_ends)
qed

lemma Replace_examples:
  "Replace ''Machine {machine} unreachable'' ''{machine}'' new = ''Machine '' @ new @ '' unreachable''"
  "Replace ''app {app} and {app}'' ''{app}'' new = ''app '' @ new @ '' and '' @ new"
  "Replace ''{daemon} stopped'' ''{daemon}'' new = new @ '' stopped''"
  "Replace ''added {subnet}'' ''{subnet}'' new = ''added '' @ new"
  by (simp_all add: Replace.simps)

subsection \<open>Objects of any kinds\<close>

lemma tag_object_text:
  "fst (tag_object obj (t, r)) =
     (if kind_of obj = KOther then t else Replace t (placeholder (kind_of obj)) (descriptor obj))"
  by (cases obj) simp_all

lemma tag_objects_text: "fst (tag_objects objects (t, r)) = substitute objects t"
proof (induction objects arbitrary: t r)
  case Nil
  show ?case by simp
next
  case (Cons obj objects)
  obtain t' r' where s: "tag_object obj (t, r) = (t', r')" by (cases "tag_object obj (t, r)")
  with tag_object_text[of obj t r] have "t' = (if kind_of obj = KOther then t
      else Replace t (placeholder (kind_of obj)) (descriptor obj))" by simp
  with s Cons.IH[of t' r'] show ?case by simp
qed

lemma Replace_keeps_absent:
  assumes old: "old \<noteq> []" and new: "new \<noteq> []"
    and h: "hd new \<notin> set ph" and l: "last new \<notin> set ph" and n: "\<not> sublist ph new"
  shows "\<not> sublist ph s \<Longrightarrow> \<not> sublist ph (Replace s old new)"
proof (induction "length s" arbitrary: s rule: less_induct)
  case less
  show ?case
  proof (cases s)
    case Nil
    with less.prems show ?thesis by simp
  next
    case (Cons c cs)
    show ?thesis
    proof (cases "prefix old s")
      case True
      have r: "Replace s old new = new @ Replace (drop (length old) s) old new"
        using Replace_match[OF old] True Cons by simp
      have "length (drop (length old) s) < length s"
        using old Cons by simp
      moreover have "\<not> sublist ph (drop (length old) s)"
        using less.prems sublist_drop sublist_order.order_trans by blast
      ultimately have ih: "\<not> sublist ph (Replace (drop (length old) s) old new)"
        by (rule less.hyps)
      show ?thesis
        unfolding r using sublist_append_sep[OF _ new l] n ih by blast
    next
      case False
      then have r: "Replace s old new = c # Replace cs old new"
        using Replace_skip[OF old] Cons by simp
      from less.prems Cons have ncs: "\<not> sublist ph cs" and np: "\<not> prefix ph (c # cs)"
        by (auto simp: sublist_Cons_right)
      have ih: "\<not> sublist ph (Replace cs old new)"
        using less.hyps[of cs] Cons ncs by simp
      have "\<not> prefix ph (c # Replace cs old new)"
      proof
        assume p: "prefix ph (c # Replace cs old new)"
        show False
        proof (cases ph)
          case Nil
          with np show False by simp
        next
          case (Cons x xs)
          with p have "x = c" and "prefix xs (Replace cs old new)" by auto
          moreover have "hd new \<notin> set xs" using h Cons by simp
          ultimately have "prefix xs cs" using prefix_Replace[OF old new] by blast
          with \<open>x = c\<close> Cons np show False by simp
        qed
      qed
      with ih show ?thesis unfolding r by (simp add: sublist_Cons_right)
    qed
  qed
qed

lemma placeholders_shape:
  assumes "ph \<in> set placeholders"
  shows "ph \<noteq> []" "CHR ''{'' \<in> set ph" "CHR 0x22 \<notin> set ph" "CHR ''<'' \<notin> set ph"
    "CHR ''>'' \<notin> set ph"
  using assms by (auto simp: placeholders_def)

lemma placeholder_listed: "k \<noteq> KOther \<Longrightarrow> placeholder k \<in> set placeholders"
  by (cases k) (simp_all add: placeholders_def)

lemma clean_free: "clean s \<Longrightarrow> ph \<in> set placeholders \<Longrightarrow> \<not> sublist ph s"
  by (simp add: clean_def list_all_iff)

lemma literal_free: "CHR ''{'' \<in> set ph \<Longrightarrow> CHR ''{'' \<notin> set s \<Longrightarrow> \<not> sublist ph s"
  by (rule no_sublist_without_char)

lemma descriptor_free:
  assumes c: "clean_object obj" and ph: "ph \<in> set placeholders"
  shows "\<not> sublist ph (descriptor obj)"
proof -
  note sh = placeholders_shape[OF ph]
  show ?thesis
  proof (cases obj)
    case (ObjDaemon d)
    with c have a: "\<not> sublist ph (Daemon_Name d)" "\<not> sublist ph (App_Type (Daemon_App d))"
      using clean_free[OF _ ph] by simp_all
    have "\<not> sublist ph (daemonTag d)"
      unfolding daemonTag_def dq_def
      by (intro no_sublist_joined sh(3) a fmt_d_free[OF sh(2)] literal_free[OF sh(2)]) simp_all
    with ObjDaemon show ?thesis by simp
  next
    case (ObjApp a)
    with c have a: "\<not> sublist ph (App_Type a)" "\<not> sublist ph (App_Meta_Version a)"
      using clean_free[OF _ ph] by simp_all
    have "\<not> sublist ph (appTag a)"
      unfolding appTag_def dq_def
      by (intro no_sublist_joined sh(3) a fmt_d_free[OF sh(2)] literal_free[OF sh(2)]) simp_all
    with ObjApp show ?thesis by simp
  next
    case (ObjMachine m)
    with c have a: "\<not> sublist ph (Machine_Address m)" "\<not> sublist ph (Machine_State_Hostname m)"
      using clean_free[OF _ ph] by simp_all
    have "\<not> sublist ph (machineTag m)"
      unfolding machineTag_def dq_def
      by (intro no_sublist_joined sh(3) a fmt_d_free[OF sh(2)] literal_free[OF sh(2)]) simp_all
    with ObjMachine show ?thesis by simp
  next
    case (ObjSubnet s)
    with c have a: "\<not> sublist ph (Subnet_Prefix s)"
      using clean_free[OF _ ph] by simp_all
    have "\<not> sublist ph (subnetTag s)"
      unfolding subnetTag_def dq_def
      by (intro no_sublist_joined sh(3) a fmt_d_free[OF sh(2)] literal_free[OF sh(2)]) simp_all
    with ObjSubnet show ?thesis by simp
  next
    case ObjOther
    then show ?thesis using sh(1) by simp
  qed
qed

lemma descriptor_ends:
  assumes "kind_of obj \<noteq> KOther"
  shows "descriptor obj \<noteq> []" "hd (descriptor obj) = CHR ''<''" "last (descriptor obj) = CHR ''>''"
  using assms by (cases obj; simp add: tag_ends)+

lemma substitute_firsts:
  assumes "list_all clean_object objects"
    and "\<And>k. k \<in> set seen \<Longrightarrow> k \<noteq> KOther \<Longrightarrow> \<not> sublist (placeholder k) t"
  shows "substitute objects t = substitute (firsts seen objects) t"
  using assms
proof (induction objects arbitrary: seen t)
  case Nil
  show ?case by simp
next
  case (Cons obj objects)
  then have c: "clean_object obj" and rest: "list_all clean_object objects" by simp_all
  show ?case
  proof (cases "kind_of obj = KOther")
    case True
    show ?thesis
    proof (cases "KOther \<in> set seen")
      case True
      with \<open>kind_of obj = KOther\<close> Cons.IH[OF rest, of seen t] Cons.prems(2)
      show ?thesis by simp
    next
      case False
      have "substitute objects t = substitute (firsts (KOther # seen) objects) t"
        using rest Cons.prems(2) by (intro Cons.IH) auto
      with False \<open>kind_of obj = KOther\<close> show ?thesis by simp
    qed
  next
    case False
    let ?ph = "placeholder (kind_of obj)"
    let ?t = "Replace t ?ph (descriptor obj)"
    note ends = descriptor_ends[OF False]
    have ph: "?ph \<in> set placeholders" using False by (rule placeholder_listed)
    note sh = placeholders_shape[OF ph]
    show ?thesis
    proof (cases "kind_of obj \<in> set seen")
      case True
      then have "\<not> sublist ?ph t" using Cons.prems(2) False by simp
      then have "?t = t" using Replace_absent[OF sh(1)] by simp
      with True False Cons.IH[OF rest, of seen t] Cons.prems(2) show ?thesis by simp
    next
      case notseen: False
      have inv: "\<not> sublist (placeholder k) ?t"
        if "k \<in> set (kind_of obj # seen)" "k \<noteq> KOther" for k
      proof (cases "k = kind_of obj")
        case True
        have "\<not> sublist ?ph ?t"
          using ends sh descriptor_free[OF c ph]
          by (intro Replace_leaves_none) simp_all
        with True show ?thesis by simp
      next
        case other: False
        with that have k: "k \<in> set seen" by simp
        have pk: "placeholder k \<in> set placeholders" using that(2) by (rule placeholder_listed)
        note shk = placeholders_shape[OF pk]
        have "\<not> sublist (placeholder k) t" using Cons.prems(2)[OF k that(2)] .
        then show ?thesis
          using ends sh(1) shk descriptor_free[OF c pk]
          by (intro Replace_keeps_absent) simp_all
      qed
      have "substitute objects ?t = substitute (firsts (kind_of obj # seen) objects) ?t"
        using rest inv by (intro Cons.IH) auto
      with notseen False show ?thesis by simp
    qed
  qed
qed

lemma tag_objects_Rel_Machine:
  "Rel_Machine (snd (tag_objects objects (t, r))) =
     (if machines_of objects = [] then Rel_Machine r
      else Machine_ID (last (machines_of objects)))"
proof (induction objects arbitrary: t r)
  case Nil
  show ?case by (simp add: machines_of_def)
next
  case (Cons obj objects)
  obtain t' r' where s: "tag_object obj (t, r) = (t', r')" by (cases "tag_object obj (t, r)")
  from s Cons.IH[of t' r'] show ?case
    by (cases obj) (auto simp: machines_of_def)
qed

lemma tag_objects_Rel_App:
  "Rel_App (snd (tag_objects objects (t, r))) =
     (if apps_of objects = [] then Rel_App r else App_ID (last (apps_of objects)))"
proof (induction objects arbitrary: t r)
  case Nil
  show ?case by (simp add: apps_of_def)
next
  case (Cons obj objects)
  obtain t' r' where s: "tag_object obj (t, r) = (t', r')" by (cases "tag_object obj (t, r)")
  from s Cons.IH[of t' r'] show ?case
    by (cases obj) (auto simp: apps_of_def)
qed

lemma tag_objects_Rel_Daemon:
  "Rel_Daemon (snd (tag_objects objects (t, r))) =
     (if daemons_of objects = [] then Rel_Daemon r else Daemon_ID (last (daemons_of objects)))"
proof (induction objects arbitrary: t r)
  case Nil
  show ?case by (simp add: daemons_of_def)
next
  case (Cons obj objects)
  obtain t' r' where s: "tag_object obj (t, r) = (t', r')" by (cases "tag_object obj (t, r)")
  from s Cons.IH[of t' r'] show ?case
    by (cases obj) (auto simp: daemons_of_def)
qed

lemma tag_objects_Rel_Subnet:
  "Rel_Subnet (snd (tag_objects objects (t, r))) =
     (if subnets_of objects = [] then Rel_Subnet r else Subnet_ID (last (subnets_of objects)))"
proof (induction objects arbitrary: t r)
  case Nil
  show ?case by (simp add: subnets_of_def)
next
  case (Cons obj objects)
  obtain t' r' where s: "tag_object obj (t, r) = (t', r')" by (cases "tag_object obj (t, r)")
  from s Cons.IH[of t' r'] show ?case
    by (cases obj) (auto simp: subnets_of_def)
qed

lemma CreateEvent_parts:
  "Event_Text (CreateEvent level text objects)
     = fst (tag_objects objects
              (text, \<lparr>Rel_Daemon = 0, Rel_App = 0, Rel_Machine = 0, Rel_Subnet = 0\<rparr>))"
  "Event_Relations (CreateEvent level text objects)
     = snd (tag_objects objects
              (text, \<lparr>Rel_Daemon = 0, Rel_App = 0, Rel_Machine = 0, Rel_Subnet = 0\<rparr>))"
  by (simp_all add: CreateEvent_def split: prod.splits)

lemma CreateEvent_any_objects:
  "(list_all clean_object objects \<longrightarrow>
      Event_Text (CreateEvent level text objects) = substitute (first_of_each_kind objects) text)
   \<and> Rel_Daemon (Event_Relations (CreateEvent level text objects))
       = last_id Daemon_ID (daemons_of objects)
   \<and> Rel_App (Event_Relations (CreateEvent level text objects))
       = last_id App_ID (apps_of objects)
   \<and> Rel_Machine (Event_Relations (CreateEvent level text objects))
       = last_id Machine_ID (machines_of objects)
   \<and> Rel_Subnet (Event_Relations (CreateEvent level text objects))
       = last_id Subnet_ID (subnets_of objects)"
proof -
  have "substitute objects text = substitute (firsts [] objects) text"
    if "list_all clean_object objects"
    using that by (rule substitute_firsts) simp
  then show ?thesis
    by (simp add: CreateEvent_parts tag_objects_text first_of_each_kind_def last_id_def
          tag_objects_Rel_Machine tag_objects_Rel_App tag_objects_Rel_Daemon
          tag_objects_Rel_Subnet)
qed

text \<open>
  C6, as amended.  The relation set records, for each kind, the identifier of the last
  object of that kind among the related objects, whatever else is given.  When no text
  attribute of a related object contains a placeholder, the event text is the given text
  in which the placeholder of each kind is replaced with the descriptor of the first
  object of that kind: the later objects of a kind find no placeholder left.  For
  objects of one kind alone, it is enough that the text attributes of the first of them
  do not contain the placeholder of that kind.
\<close>

theorem CreateEvent_first_descriptor_last_identifier:
  "(list_all clean_object objects \<longrightarrow>
      Event_Text (CreateEvent level text objects) = substitute (first_of_each_kind objects) text)
   \<and> Rel_Daemon (Event_Relations (CreateEvent level text objects))
       = last_id Daemon_ID (daemons_of objects)
   \<and> Rel_App (Event_Relations (CreateEvent level text objects))
       = last_id App_ID (apps_of objects)
   \<and> Rel_Machine (Event_Relations (CreateEvent level text objects))
       = last_id Machine_ID (machines_of objects)
   \<and> Rel_Subnet (Event_Relations (CreateEvent level text objects))
       = last_id Subnet_ID (subnets_of objects)
   \<and> (ms \<noteq> []
      \<and> \<not> sublist ''{machine}'' (Machine_Address (hd ms))
      \<and> \<not> sublist ''{machine}'' (Machine_State_Hostname (hd ms)) \<longrightarrow>
      Event_Text (CreateEvent level text (map ObjMachine ms))
        = Replace text ''{machine}'' (machineTag (hd ms))
      \<and> Rel_Machine (Event_Relations (CreateEvent level text (map ObjMachine ms)))
        = Machine_ID (last ms))
   \<and> (as \<noteq> []
      \<and> \<not> sublist ''{app}'' (App_Type (hd as))
      \<and> \<not> sublist ''{app}'' (App_Meta_Version (hd as)) \<longrightarrow>
      Event_Text (CreateEvent level text (map ObjApp as))
        = Replace text ''{app}'' (appTag (hd as))
      \<and> Rel_App (Event_Relations (CreateEvent level text (map ObjApp as)))
        = App_ID (last as))
   \<and> (ds \<noteq> []
      \<and> \<not> sublist ''{daemon}'' (Daemon_Name (hd ds))
      \<and> \<not> sublist ''{daemon}'' (App_Type (Daemon_App (hd ds))) \<longrightarrow>
      Event_Text (CreateEvent level text (map ObjDaemon ds))
        = Replace text ''{daemon}'' (daemonTag (hd ds))
      \<and> Rel_Daemon (Event_Relations (CreateEvent level text (map ObjDaemon ds)))
        = Daemon_ID (last ds))
   \<and> (ss \<noteq> []
      \<and> \<not> sublist ''{subnet}'' (Subnet_Prefix (hd ss)) \<longrightarrow>
      Event_Text (CreateEvent level text (map ObjSubnet ss))
        = Replace text ''{subnet}'' (subnetTag (hd ss))
      \<and> Rel_Subnet (Event_Relations (CreateEvent level text (map ObjSubnet ss)))
        = Subnet_ID (last ss))"
proof -
  have k0: "ms \<noteq> []
      \<and> \<not> sublist ''{machine}'' (Machine_Address (hd ms))
      \<and> \<not> sublist ''{machine}'' (Machine_State_Hostname (hd ms)) \<longrightarrow>
      Event_Text (CreateEvent level text (map ObjMachine ms))
        = Replace text ''{machine}'' (machineTag (hd ms))
      \<and> Rel_Machine (Event_Relations (CreateEvent level text (map ObjMachine ms)))
        = Machine_ID (last ms)"
    by (simp add: CreateEvent_def machines_first_wins)
  have k1: "as \<noteq> []
      \<and> \<not> sublist ''{app}'' (App_Type (hd as))
      \<and> \<not> sublist ''{app}'' (App_Meta_Version (hd as)) \<longrightarrow>
      Event_Text (CreateEvent level text (map ObjApp as))
        = Replace text ''{app}'' (appTag (hd as))
      \<and> Rel_App (Event_Relations (CreateEvent level text (map ObjApp as)))
        = App_ID (last as)"
    by (simp add: CreateEvent_def apps_first_wins)
  have k2: "ds \<noteq> []
      \<and> \<not> sublist ''{daemon}'' (Daemon_Name (hd ds))
      \<and> \<not> sublist ''{daemon}'' (App_Type (Daemon_App (hd ds))) \<longrightarrow>
      Event_Text (CreateEvent level text (map ObjDaemon ds))
        = Replace text ''{daemon}'' (daemonTag (hd ds))
      \<and> Rel_Daemon (Event_Relations (CreateEvent level text (map ObjDaemon ds)))
        = Daemon_ID (last ds)"
    by (simp add: CreateEvent_def daemons_first_wins)
  have k3: "ss \<noteq> []
      \<and> \<not> sublist ''{subnet}'' (Subnet_Prefix (hd ss)) \<longrightarrow>
      Event_Text (CreateEvent level text (map ObjSubnet ss))
        = Replace text ''{subnet}'' (subnetTag (hd ss))
      \<and> Rel_Subnet (Event_Relations (CreateEvent level text (map ObjSubnet ss)))
        = Subnet_ID (last ss)"
    by (simp add: CreateEvent_def subnets_first_wins)
  note g = CreateEvent_any_objects[of objects level "text"]
  from g k0 k1 k2 k3 show ?thesis by blast
qed

theorem CreateEvent_two_of_a_kind_witness:
  "Event_Text (CreateEvent 1 ''Machine {machine} of {app}''
         [ObjMachine machine5, ObjApp (kea_app 1 []), ObjMachine machine6])
     = ''Machine '' @ machineTag machine5 @ '' of '' @ appTag (kea_app 1 [])
   \<and> Rel_Machine (Event_Relations (CreateEvent 1 ''Machine {machine} of {app}''
         [ObjMachine machine5, ObjApp (kea_app 1 []), ObjMachine machine6])) = 6
   \<and> Rel_App (Event_Relations (CreateEvent 1 ''Machine {machine} of {app}''
         [ObjMachine machine5, ObjApp (kea_app 1 []), ObjMachine machine6])) = 1
   \<and> Event_Text (CreateEvent 1 ''Machine {machine} unreachable'' [ObjMachine machine5, ObjMachine machine6])
     = ''Machine '' @ machineTag machine5 @ '' unreachable''
   \<and> Rel_Machine (Event_Relations
         (CreateEvent 1 ''Machine {machine} unreachable'' [ObjMachine machine5, ObjMachine machine6])) = 6
   \<and> Event_Text (CreateEvent 1 ''app {app} and {app}'' [ObjApp (kea_app 1 []), ObjApp (kea_app 2 [])])
     = ''app '' @ appTag (kea_app 1 []) @ '' and '' @ appTag (kea_app 1 [])
   \<and> Event_Text (CreateEvent 1 ''{daemon} stopped''
         [ObjDaemon (daemon_of 7 ''dhcp4''), ObjDaemon (daemon_of 8 ''dhcp6'')])
     = daemonTag (daemon_of 7 ''dhcp4'') @ '' stopped''
   \<and> Event_Text (CreateEvent 1 ''added {subnet}''
         [ObjSubnet (subnet_of 3 ''192.0.2.0/24''), ObjSubnet (subnet_of 4 ''2001:db8::/32'')])
     = ''added '' @ subnetTag (subnet_of 3 ''192.0.2.0/24'')"
proof -
  have c: "list_all clean_object [ObjMachine machine5, ObjApp (kea_app 1 []), ObjMachine machine6]"
    by code_simp
  have sub: "substitute (first_of_each_kind
                 [ObjMachine machine5, ObjApp (kea_app 1 []), ObjMachine machine6])
               ''Machine {machine} of {app}''
             = ''Machine '' @ machineTag machine5 @ '' of '' @ appTag (kea_app 1 [])"
    by code_simp
  have ids: "last_id Machine_ID (machines_of
                 [ObjMachine machine5, ObjApp (kea_app 1 []), ObjMachine machine6]) = 6"
    "last_id App_ID (apps_of
                 [ObjMachine machine5, ObjApp (kea_app 1 []), ObjMachine machine6]) = 1"
    by (simp_all add: last_id_def machines_of_def apps_of_def machine6_def kea_app_def)
  have m: "[machine5, machine6] \<noteq> [] \<and> \<not> sublist ''{machine}'' (Machine_Address (hd [machine5, machine6]))
      \<and> \<not> sublist ''{machine}'' (Machine_State_Hostname (hd [machine5, machine6]))"
    by (simp add: machine5_def sublist_Cons_right)
  have a: "[kea_app 1 [], kea_app 2 []] \<noteq> [] \<and> \<not> sublist ''{app}'' (App_Type (hd [kea_app 1 [], kea_app 2 []]))
      \<and> \<not> sublist ''{app}'' (App_Meta_Version (hd [kea_app 1 [], kea_app 2 []]))"
    by (simp add: kea_app_def sublist_Cons_right)
  have d: "[daemon_of 7 ''dhcp4'', daemon_of 8 ''dhcp6''] \<noteq> []
      \<and> \<not> sublist ''{daemon}'' (Daemon_Name (hd [daemon_of 7 ''dhcp4'', daemon_of 8 ''dhcp6'']))
      \<and> \<not> sublist ''{daemon}'' (App_Type (Daemon_App (hd [daemon_of 7 ''dhcp4'', daemon_of 8 ''dhcp6''])))"
    by (simp add: daemon_of_def kea_app_def sublist_Cons_right)
  have s: "[subnet_of 3 ''192.0.2.0/24'', subnet_of 4 ''2001:db8::/32''] \<noteq> []
      \<and> \<not> sublist ''{subnet}'' (Subnet_Prefix (hd [subnet_of 3 ''192.0.2.0/24'', subnet_of 4 ''2001:db8::/32'']))"
    by (simp add: subnet_of_def sublist_Cons_right)
  note t = CreateEvent_first_descriptor_last_identifier
  have g: "Event_Text (CreateEvent 1 ''Machine {machine} of {app}''
               [ObjMachine machine5, ObjApp (kea_app 1 []), ObjMachine machine6])
             = ''Machine '' @ machineTag machine5 @ '' of '' @ appTag (kea_app 1 [])
           \<and> Rel_Machine (Event_Relations (CreateEvent 1 ''Machine {machine} of {app}''
               [ObjMachine machine5, ObjApp (kea_app 1 []), ObjMachine machine6])) = 6
           \<and> Rel_App (Event_Relations (CreateEvent 1 ''Machine {machine} of {app}''
               [ObjMachine machine5, ObjApp (kea_app 1 []), ObjMachine machine6])) = 1"
    using t[of "[ObjMachine machine5, ObjApp (kea_app 1 []), ObjMachine machine6]" 1
              "''Machine {machine} of {app}''" "[]" "[]" "[]" "[]"] c
    by (simp add: sub ids)
  have k: "Event_Text (CreateEvent 1 ''Machine {machine} unreachable''
               [ObjMachine machine5, ObjMachine machine6])
             = ''Machine '' @ machineTag machine5 @ '' unreachable''
           \<and> Rel_Machine (Event_Relations (CreateEvent 1 ''Machine {machine} unreachable''
               [ObjMachine machine5, ObjMachine machine6])) = 6
           \<and> Event_Text (CreateEvent 1 ''app {app} and {app}''
               [ObjApp (kea_app 1 []), ObjApp (kea_app 2 [])])
             = ''app '' @ appTag (kea_app 1 []) @ '' and '' @ appTag (kea_app 1 [])
           \<and> Event_Text (CreateEvent 1 ''{daemon} stopped''
               [ObjDaemon (daemon_of 7 ''dhcp4''), ObjDaemon (daemon_of 8 ''dhcp6'')])
             = daemonTag (daemon_of 7 ''dhcp4'') @ '' stopped''
           \<and> Event_Text (CreateEvent 1 ''added {subnet}''
               [ObjSubnet (subnet_of 3 ''192.0.2.0/24''), ObjSubnet (subnet_of 4 ''2001:db8::/32'')])
             = ''added '' @ subnetTag (subnet_of 3 ''192.0.2.0/24'')"
    using t[of "[]" 1 "''Machine {machine} unreachable''" "[machine5, machine6]" "[]" "[]" "[]"] m
          t[of "[]" 1 "''app {app} and {app}''" "[]" "[kea_app 1 [], kea_app 2 []]" "[]" "[]"] a
          t[of "[]" 1 "''{daemon} stopped''" "[]" "[]"
              "[daemon_of 7 ''dhcp4'', daemon_of 8 ''dhcp6'']" "[]"] d
          t[of "[]" 1 "''added {subnet}''" "[]" "[]" "[]"
              "[subnet_of 3 ''192.0.2.0/24'', subnet_of 4 ''2001:db8::/32'']"] s
    by (simp add: Replace_examples machine6_def)
  from g k show ?thesis by simp
qed

text \<open>
  C6 as stated fails.  With two machines, the text carries the descriptor of the first
  machine, not of the last one, while the relation set records the identifier of the
  last one.
\<close>

theorem two_machines_first_descriptor_in_text:
  "Event_Text (CreateEvent 1 ''Machine {machine} unreachable'' [ObjMachine machine5, ObjMachine machine6])
     = ''Machine '' @ machineTag machine5 @ '' unreachable''
   \<and> Event_Text (CreateEvent 1 ''Machine {machine} unreachable'' [ObjMachine machine5, ObjMachine machine6])
     \<noteq> ''Machine '' @ machineTag machine6 @ '' unreachable''
   \<and> Rel_Machine (Event_Relations
         (CreateEvent 1 ''Machine {machine} unreachable'' [ObjMachine machine5, ObjMachine machine6])) = 6"
  by code_simp

end
